theory Spec2Isabelle
  imports Main
begin

section \<open>Data model of the grid session (class RobotNavigation)\<close>

text \<open>
  A grid coordinate is the Python tuple \<open>(x, y)\<close>; the grid is the list of rows
  \<open>self.grid[y][x]\<close>. The six integer cell codes \<open>0..5\<close> of the class are the
  constructors of \<open>cell\<close>, in the order of their codes.
\<close>

type_synonym pos = "int \<times> int"
type_synonym path = "pos list"

datatype cell = UNVISITED | VISITED | OBSTACLE | ROBOT | RETRACED_PATH | DYNAMIC_OBSTACLE

text \<open>
  The Python exceptions the modelled code can raise. \<open>DrawsExhausted\<close> is not an
  exception: it is the outcome of a \<open>while True\<close> loop of the constructor that is still
  running when the supplied prefix of the random stream has been used up.
\<close>

datatype error = IndexError | ValueError | KeyError | DrawsExhausted

record state =
  width :: int
  height :: int
  grid :: "cell list list"
  robot_pos :: pos
  visited_cells :: "pos set"
  unvisited_cells :: "pos set"
  dynamic_obstacles :: "pos list"

subsection \<open>List indexing as Python does it\<close>

text \<open>
  \<open>xs[i]\<close> accepts \<open>-len(xs) \<le> i < len(xs)\<close>, a negative index counting from the end,
  and raises IndexError otherwise.
\<close>

definition py_index :: "int \<Rightarrow> nat \<Rightarrow> error + nat" where
  "py_index i n =
     (if 0 \<le> i \<and> i < int n then Inr (nat i)
      else if - int n \<le> i \<and> i < 0 then Inr (nat (int n + i))
      else Inl IndexError)"

text \<open>\<open>self.grid[y][x]\<close> for a coordinate that no bounds test guards.\<close>

definition grid_get :: "cell list list \<Rightarrow> pos \<Rightarrow> error + cell" where
  "grid_get g p =
     (case py_index (snd p) (length g) of
        Inl e \<Rightarrow> Inl e
      | Inr j \<Rightarrow>
          (case py_index (fst p) (length (g ! j)) of
             Inl e \<Rightarrow> Inl e
           | Inr i \<Rightarrow> Inr (g ! j ! i)))"

text \<open>\<open>self.grid[y][x] = v\<close> for a coordinate that no bounds test guards.\<close>

definition grid_set :: "cell list list \<Rightarrow> pos \<Rightarrow> cell \<Rightarrow> error + cell list list" where
  "grid_set g p v =
     (case py_index (snd p) (length g) of
        Inl e \<Rightarrow> Inl e
      | Inr j \<Rightarrow>
          (case py_index (fst p) (length (g ! j)) of
             Inl e \<Rightarrow> Inl e
           | Inr i \<Rightarrow> Inr (g[j := (g ! j)[i := v]])))"

text \<open>
  Reads and writes that stand behind the test
  \<open>0 <= x < self.width and 0 <= y < self.height\<close>: the index is a natural number
  below the length of a grid of \<open>height\<close> rows of \<open>width\<close> cells.
\<close>

definition in_bounds :: "state \<Rightarrow> pos \<Rightarrow> bool" where
  "in_bounds s p \<longleftrightarrow> 0 \<le> fst p \<and> fst p < width s \<and> 0 \<le> snd p \<and> snd p < height s"

definition cell_at :: "cell list list \<Rightarrow> pos \<Rightarrow> cell" where
  "cell_at g p = g ! nat (snd p) ! nat (fst p)"

definition set_cell :: "cell list list \<Rightarrow> pos \<Rightarrow> cell \<Rightarrow> cell list list" where
  "set_cell g p v = g[nat (snd p) := (g ! nat (snd p))[nat (fst p) := v]]"

definition directions :: "pos list" where
  "directions = [(0, 1), (1, 0), (0, -1), (-1, 0)]"

definition step_to :: "pos \<Rightarrow> pos \<Rightarrow> pos" where
  "step_to p d = (fst p + fst d, snd p + snd d)"

subsection \<open>The random source\<close>

text \<open>
  \<open>random.randint(a, b)\<close> raises ValueError on an empty range and otherwise returns
  some \<open>a \<le> N \<le> b\<close>; the raw draw \<open>r\<close> of the generator is reduced into that range,
  so every value of the range is produced by some draw and no other value by any.
\<close>

definition randint :: "int \<Rightarrow> int \<Rightarrow> int \<Rightarrow> error + int" where
  "randint a b r = (if b < a then Inl ValueError else Inr (a + r mod (b - a + 1)))"

text \<open>
  \<open>random.shuffle(xs)\<close> leaves some permutation of \<open>xs\<close>; the draw \<open>r\<close> selects it
  (the head is inserted at position \<open>r mod n\<close> into the shuffled tail).
\<close>

fun shuffle :: "nat \<Rightarrow> 'a list \<Rightarrow> 'a list" where
  "shuffle r [] = []"
| "shuffle r (x # xs) =
     (let n = Suc (length xs); ys = shuffle (r div n) xs
      in take (r mod n) ys @ x # drop (r mod n) ys)"

section \<open>The constructor (demo.py, lines 7-47)\<close>

text \<open>Lines 11-28: the empty grid, the robot at the origin, the two cell sets.\<close>

definition fresh_session :: "int \<Rightarrow> int \<Rightarrow> state" where
  "fresh_session w h =
     \<lparr> width = w, height = h,
       grid = replicate (nat h) (replicate (nat w) UNVISITED),
       robot_pos = (0, 0),
       visited_cells = {(0, 0)},
       unvisited_cells = set (filter (\<lambda>p. p \<noteq> (0, 0)) (List.product [0..w - 1] [0..h - 1])),
       dynamic_obstacles = [] \<rparr>"

text \<open>Lines 31-34: the loop over the static obstacle list.\<close>

fun place_static :: "state \<Rightarrow> pos list \<Rightarrow> error + state" where
  "place_static s [] = Inr s"
| "place_static s (p # ps) =
     (case grid_set (grid s) p OBSTACLE of
        Inl e \<Rightarrow> Inl e
      | Inr g \<Rightarrow> place_static (s\<lparr>grid := g, unvisited_cells := unvisited_cells s - {p}\<rparr>) ps)"

text \<open>
  Lines 39-44: one \<open>while True\<close> loop. Each round draws a coordinate and leaves the
  loop when the cell drawn is UNVISITED. The result carries the draws not yet used.
\<close>

fun place_dynamic :: "state \<Rightarrow> pos list \<Rightarrow> error + (state \<times> pos list)" where
  "place_dynamic s [] =
     (case randint 0 (width s - 1) 0 of
        Inl e \<Rightarrow> Inl e
      | Inr _ \<Rightarrow>
          (case randint 0 (height s - 1) 0 of
             Inl e \<Rightarrow> Inl e
           | Inr _ \<Rightarrow> Inl DrawsExhausted))"
| "place_dynamic s (r # rs) =
     (case randint 0 (width s - 1) (fst r) of
        Inl e \<Rightarrow> Inl e
      | Inr x \<Rightarrow>
          (case randint 0 (height s - 1) (snd r) of
             Inl e \<Rightarrow> Inl e
           | Inr y \<Rightarrow>
               (case grid_get (grid s) (x, y) of
                  Inl e \<Rightarrow> Inl e
                | Inr c \<Rightarrow>
                    if c = UNVISITED then
                      (case grid_set (grid s) (x, y) DYNAMIC_OBSTACLE of
                         Inl e \<Rightarrow> Inl e
                       | Inr g \<Rightarrow>
                           Inr (s\<lparr>grid := g,
                                  dynamic_obstacles := dynamic_obstacles s @ [(x, y)]\<rparr>, rs))
                    else place_dynamic s rs)))"

text \<open>Line 38: \<open>for _ in range(n)\<close>, with \<open>n = 3\<close> in demo.py and \<open>n = 5\<close> in h1.py.\<close>

fun place_dynamics :: "nat \<Rightarrow> state \<Rightarrow> pos list \<Rightarrow> error + state" where
  "place_dynamics 0 s rs = Inr s"
| "place_dynamics (Suc n) s rs =
     (case place_dynamic s rs of
        Inl e \<Rightarrow> Inl e
      | Inr (s', rs') \<Rightarrow> place_dynamics n s' rs')"

definition init_session :: "nat \<Rightarrow> int \<Rightarrow> int \<Rightarrow> pos list \<Rightarrow> pos list \<Rightarrow> error + state" where
  "init_session n w h obstacles draws =
     (case place_static (fresh_session w h) obstacles of
        Inl e \<Rightarrow> Inl e
      | Inr s1 \<Rightarrow>
          (case place_dynamics n s1 draws of
             Inl e \<Rightarrow> Inl e
           | Inr s2 \<Rightarrow>
               (case grid_set (grid s2) (0, 0) ROBOT of
                  Inl e \<Rightarrow> Inl e
                | Inr g \<Rightarrow> Inr (s2\<lparr>grid := g\<rparr>))))"

text \<open>\<open>RobotNavigation(width, height, obstacles)\<close> of demo.py.\<close>

definition RobotNavigation :: "int \<Rightarrow> int \<Rightarrow> pos list \<Rightarrow> pos list \<Rightarrow> error + state" where
  "RobotNavigation = init_session 3"

section \<open>Stepping the dynamic obstacles (demo.py, lines 49-76)\<close>

text \<open>Lines 57-62: the state written back into the cell an obstacle stands on.\<close>

definition restored_cell :: "state \<Rightarrow> pos \<Rightarrow> cell" where
  "restored_cell s p =
     (if p \<in> visited_cells s then VISITED
      else if p \<notin> unvisited_cells s then RETRACED_PATH
      else UNVISITED)"

text \<open>Lines 69-72: the test a candidate cell must pass.\<close>

definition admissible :: "state \<Rightarrow> pos \<Rightarrow> bool" where
  "admissible s p \<longleftrightarrow>
     in_bounds s p \<and> cell_at (grid s) p \<in> {UNVISITED, VISITED, RETRACED_PATH}
       \<and> cell_at (grid s) p \<noteq> ROBOT"

text \<open>
  One round of the loop of line 53, for the obstacle of index \<open>i\<close>; the inner loop
  with its \<open>break\<close> takes the first admissible candidate in shuffled order.
\<close>

definition move_obstacle :: "nat \<Rightarrow> nat \<Rightarrow> state \<Rightarrow> error + state" where
  "move_obstacle r i s =
     (let p = dynamic_obstacles s ! i in
      case grid_set (grid s) p (restored_cell s p) of
        Inl e \<Rightarrow> Inl e
      | Inr g \<Rightarrow>
          (let s1 = s\<lparr>grid := g\<rparr> in
           case find (admissible s1) (map (step_to p) (shuffle r directions)) of
             None \<Rightarrow> Inr s1
           | Some q \<Rightarrow>
               Inr (s1\<lparr>dynamic_obstacles := (dynamic_obstacles s1)[i := q],
                       grid := set_cell (grid s1) q DYNAMIC_OBSTACLE\<rparr>)))"

fun move_loop :: "(nat \<Rightarrow> nat) \<Rightarrow> nat list \<Rightarrow> state \<Rightarrow> error + state" where
  "move_loop rs [] s = Inr s"
| "move_loop rs (i # is) s =
     (case move_obstacle (rs i) i s of
        Inl e \<Rightarrow> Inl e
      | Inr s' \<Rightarrow> move_loop rs is s')"

text \<open>\<open>rs i\<close> is the draw that shuffles the directions for the obstacle of index \<open>i\<close>.\<close>

definition move_dynamic_obstacles :: "(nat \<Rightarrow> nat) \<Rightarrow> state \<Rightarrow> error + state" where
  "move_dynamic_obstacles rs s = move_loop rs [0..<length (dynamic_obstacles s)] s"

section \<open>The frontier search (demo.py, lines 78-123)\<close>

subsection \<open>The priority queue\<close>

text \<open>
  The queue holds tuples \<open>(priority, cell, path)\<close>. \<open>heapq\<close> keeps a binary heap whose
  root is the least tuple under Python's \<open><\<close>, and \<open>heappop\<close> returns that root.
  Tuples and lists are compared lexicographically, a total order whose equal elements
  are identical, so the tuple returned depends only on which tuples are in the queue:
  the queue is the list of its entries and \<open>heappop\<close> removes the least of them.
\<close>

type_synonym entry = "int \<times> pos \<times> path"

definition pos_less :: "pos \<Rightarrow> pos \<Rightarrow> bool" where
  "pos_less p q \<longleftrightarrow> fst p < fst q \<or> (fst p = fst q \<and> snd p < snd q)"

fun path_less :: "path \<Rightarrow> path \<Rightarrow> bool" where
  "path_less [] [] = False"
| "path_less [] (q # qs) = True"
| "path_less (p # ps) [] = False"
| "path_less (p # ps) (q # qs) = (if p = q then path_less ps qs else pos_less p q)"

definition entry_less :: "entry \<Rightarrow> entry \<Rightarrow> bool" where
  "entry_less a b =
     (if fst a \<noteq> fst b then fst a < fst b
      else if fst (snd a) \<noteq> fst (snd b) then pos_less (fst (snd a)) (fst (snd b))
      else path_less (snd (snd a)) (snd (snd b)))"

definition heappush :: "entry list \<Rightarrow> entry \<Rightarrow> entry list" where
  "heappush h e = e # h"

fun least_entry :: "entry \<Rightarrow> entry list \<Rightarrow> entry" where
  "least_entry m [] = m"
| "least_entry m (e # es) = least_entry (if entry_less e m then e else m) es"

text \<open>\<open>heappop\<close> on the non-empty queue \<open>e # es\<close>.\<close>

definition heappop :: "entry \<Rightarrow> entry list \<Rightarrow> entry \<times> entry list" where
  "heappop e es = (let m = least_entry e es in (m, remove1 m (e # es)))"

subsection \<open>The search\<close>

text \<open>Lines 112-117: the number of UNVISITED cells around a cell.\<close>

definition unexplored_neighbors :: "state \<Rightarrow> pos \<Rightarrow> int" where
  "unexplored_neighbors s p =
     int (length (filter (\<lambda>d. in_bounds s (step_to p d)
                               \<and> cell_at (grid s) (step_to p d) = UNVISITED) directions))"

text \<open>Lines 97-100: a neighbour the search may enter.\<close>

definition passable :: "state \<Rightarrow> pos \<Rightarrow> bool" where
  "passable s p \<longleftrightarrow> in_bounds s p \<and> cell_at (grid s) p \<notin> {OBSTACLE, DYNAMIC_OBSTACLE}"

text \<open>
  Lines 93-121: the loop over the four directions for the entry just popped. The first
  component of the result is the path of the \<open>return\<close> of line 106, if it was reached.
\<close>

fun expand ::
  "state \<Rightarrow> pos \<Rightarrow> path \<Rightarrow> pos list \<Rightarrow> entry list \<Rightarrow> pos set
     \<Rightarrow> path option \<times> entry list \<times> pos set" where
  "expand s current pth [] open_set visited = (None, open_set, visited)"
| "expand s current pth (d # ds) open_set visited =
     (let neighbor = step_to current d in
      if passable s neighbor \<and> neighbor \<notin> visited then
        (let new_path = pth @ [neighbor] in
         if neighbor \<in> unvisited_cells s then (Some new_path, open_set, visited)
         else expand s current pth ds
                (heappush open_set
                   (int (length new_path) - unexplored_neighbors s neighbor, neighbor, new_path))
                (insert neighbor visited))
      else expand s current pth ds open_set visited)"

text \<open>Lines 89-123: the \<open>while open_set\<close> loop.\<close>

function frontier_loop :: "state \<Rightarrow> entry list \<Rightarrow> pos set \<Rightarrow> path option" where
  "frontier_loop s [] visited = None"
| "frontier_loop s (e # es) visited =
     (case heappop e es of
        (m, rest) \<Rightarrow>
          (case expand s (fst (snd m)) (snd (snd m)) directions rest visited of
             (Some p, open_set, visited') \<Rightarrow> Some p
           | (None, open_set, visited') \<Rightarrow> frontier_loop s open_set visited'))"
  by pat_completeness auto

text \<open>
  The loop ends: a round either marks a new in-bounds cell in the local \<open>visited\<close> set
  or leaves the set alone and shortens the queue by the entry popped.
\<close>

lemma in_bounds_set: "{p. in_bounds s p} = {0..<width s} \<times> {0..<height s}"
  by (auto simp: in_bounds_def)

lemma finite_in_bounds: "finite {p. in_bounds s p}"
  by (simp add: in_bounds_set)

lemma expand_grows:
  "expand s c pth ds opn vis = (r, opn', vis') \<Longrightarrow>
     vis \<subseteq> vis' \<and> vis' - vis \<subseteq> {p. in_bounds s p} \<and> (vis' = vis \<longrightarrow> opn' = opn)"
proof (induction ds arbitrary: opn vis)
  case Nil
  then show ?case by simp
next
  case (Cons d ds)
  let ?n = "step_to c d"
  show ?case
  proof (cases "passable s ?n \<and> ?n \<notin> vis \<and> ?n \<notin> unvisited_cells s")
    case True
    with Cons.prems have
      "expand s c pth ds
         (heappush opn (int (length (pth @ [?n])) - unexplored_neighbors s ?n, ?n, pth @ [?n]))
         (insert ?n vis) = (r, opn', vis')"
      by (simp add: Let_def)
    from Cons.IH[OF this] True show ?thesis
      by (auto simp: passable_def)
  next
    case False
    with Cons.prems Cons.IH[of opn vis] show ?thesis
      by (auto simp: Let_def split: if_splits)
  qed
qed

lemma least_entry_mem: "least_entry m es \<in> set (m # es)"
  by (induction es arbitrary: m) auto

lemma heappop_length: "heappop e es = (m, rest) \<Longrightarrow> length rest = length es"
  using least_entry_mem[of e es]
  by (auto simp: heappop_def Let_def length_remove1 simp del: remove1.simps)

termination frontier_loop
proof (relation "measures [\<lambda>(s, opn, vis). card ({p. in_bounds s p} - vis),
                           \<lambda>(s, opn, vis). length opn]", goal_cases)
  case 1
  then show ?case by simp
next
  case (2 s e es visited m rest r ya opn' vis')
  then have ex:
    "expand s (fst (snd m)) (snd (snd m)) directions rest visited = (None, opn', vis')"
    by simp
  from 2(1)[symmetric] have len: "length rest = length es"
    by (rule heappop_length)
  from expand_grows[OF ex] have g: "visited \<subseteq> vis'" "vis' - visited \<subseteq> {p. in_bounds s p}"
    "vis' = visited \<longrightarrow> opn' = rest" by auto
  show ?case
  proof (cases "vis' = visited")
    case True
    with g len show ?thesis by simp
  next
    case False
    with g have "{p. in_bounds s p} - vis' \<subset> {p. in_bounds s p} - visited" by blast
    then have "card ({p. in_bounds s p} - vis') < card ({p. in_bounds s p} - visited)"
      by (intro psubset_card_mono) (simp_all add: finite_in_bounds)
    then show ?thesis by simp
  qed
qed

text \<open>Lines 82-87: the queue starts with the robot's cell and the empty path.\<close>

definition find_most_efficient_path :: "state \<Rightarrow> path option" where
  "find_most_efficient_path s =
     frontier_loop s (heappush [] (0, robot_pos s, [])) {robot_pos s}"

section \<open>Moving the robot (demo.py, lines 126-159)\<close>

text \<open>Lines 134-136: the loop over \<open>path[:-1]\<close>.\<close>

fun retrace :: "cell list list \<Rightarrow> path \<Rightarrow> error + cell list list" where
  "retrace g [] = Inr g"
| "retrace g (p # ps) =
     (case grid_get g p of
        Inl e \<Rightarrow> Inl e
      | Inr c \<Rightarrow>
          if c = VISITED then
            (case grid_set g p RETRACED_PATH of
               Inl e \<Rightarrow> Inl e
             | Inr g' \<Rightarrow> retrace g' ps)
          else retrace g ps)"

text \<open>The result is the Boolean the method returns, with the state it leaves.\<close>

definition move_robot :: "state \<Rightarrow> path \<Rightarrow> error + (bool \<times> state)" where
  "move_robot s pth =
     (if pth = [] then Inr (False, s)
      else
        (case retrace (grid s) (butlast pth) of
           Inl e \<Rightarrow> Inl e
         | Inr g1 \<Rightarrow>
             (case grid_get g1 (last pth) of
                Inl e \<Rightarrow> Inl e
              | Inr c \<Rightarrow>
                  if c = DYNAMIC_OBSTACLE then Inr (False, s\<lparr>grid := g1\<rparr>)
                  else
                    (case grid_set g1 (robot_pos s) VISITED of
                       Inl e \<Rightarrow> Inl e
                     | Inr g2 \<Rightarrow>
                         (case grid_set g2 (last pth) ROBOT of
                            Inl e \<Rightarrow> Inl e
                          | Inr g3 \<Rightarrow>
                              Inr (True,
                                   s\<lparr>grid := g3, robot_pos := last pth,
                                      unvisited_cells := unvisited_cells s - {last pth},
                                      visited_cells := insert (last pth) (visited_cells s)\<rparr>))))))"

text \<open>Lines 161-167.\<close>

definition is_exploration_complete :: "state \<Rightarrow> bool" where
  "is_exploration_complete s \<longleftrightarrow>
     unvisited_cells s = {} \<and> list_all (\<lambda>row. list_all (\<lambda>c. c \<noteq> UNVISITED) row) (grid s)"

section \<open>The variant with an A* fallback (h1.py, and the same class in h13.py)\<close>

subsection \<open>A* (h1.py, lines 74-107)\<close>

text \<open>
  Lines 94-105: the loop over the four directions. \<open>g_score[current]\<close> raises KeyError
  when the key is missing.
\<close>

fun relax ::
  "state \<Rightarrow> pos \<Rightarrow> pos \<Rightarrow> path \<Rightarrow> pos list \<Rightarrow> entry list \<Rightarrow> (pos \<rightharpoonup> int)
     \<Rightarrow> error + (entry list \<times> (pos \<rightharpoonup> int))" where
  "relax s target current pth [] open_set g_score = Inr (open_set, g_score)"
| "relax s target current pth (d # ds) open_set g_score =
     (let neighbor = step_to current d in
      if passable s neighbor then
        (case g_score current of
           None \<Rightarrow> Inl KeyError
         | Some gc \<Rightarrow>
             (let tentative_g_score = gc + 1 in
              if (case g_score neighbor of
                    None \<Rightarrow> True
                  | Some gn \<Rightarrow> tentative_g_score < gn) then
                (let f_score = tentative_g_score + \<bar>fst neighbor - fst target\<bar>
                                 + \<bar>snd neighbor - snd target\<bar>
                 in relax s target current pth ds
                      (heappush open_set (f_score, neighbor, pth @ [current]))
                      (g_score(neighbor \<mapsto> tentative_g_score)))
              else relax s target current pth ds open_set g_score))
      else relax s target current pth ds open_set g_score)"

text \<open>Lines 83-107: the \<open>while open_set\<close> loop.\<close>

function astar_loop ::
  "state \<Rightarrow> pos \<Rightarrow> entry list \<Rightarrow> (pos \<rightharpoonup> int) \<Rightarrow> pos set \<Rightarrow> error + path option" where
  "astar_loop s target [] g_score visited = Inr None"
| "astar_loop s target (e # es) g_score visited =
     (case heappop e es of
        (m, rest) \<Rightarrow>
          (let current = fst (snd m); pth = snd (snd m) in
           if current = target then Inr (Some (pth @ [current]))
           else if current \<in> visited then astar_loop s target rest g_score visited
           else
             (case relax s target current pth directions rest g_score of
                Inl err \<Rightarrow> Inl err
              | Inr (open_set, g_score') \<Rightarrow>
                  astar_loop s target open_set g_score' (insert current visited))))"
  by pat_completeness auto

text \<open>
  The loop ends: the cells that are in bounds or queued, and not yet closed, never grow;
  a round that closes a cell removes it from them, any other round shortens the queue.
\<close>

lemma relax_positions:
  "relax s t c pth ds opn g = Inr (opn', g') \<Longrightarrow>
     (fst \<circ> snd) ` set opn' \<subseteq> {p. in_bounds s p} \<union> (fst \<circ> snd) ` set opn"
proof (induction ds arbitrary: opn g)
  case Nil
  then show ?case by auto
next
  case (Cons d ds)
  let ?n = "step_to c d"
  show ?case
  proof (cases "passable s ?n")
    case False
    with Cons.prems Cons.IH[of opn g] show ?thesis by (simp add: Let_def)
  next
    case True
    with Cons.prems obtain gc where gc: "g c = Some gc"
      by (auto simp: Let_def split: option.splits)
    show ?thesis
    proof (cases "case g ?n of None \<Rightarrow> True | Some gn \<Rightarrow> gc + 1 < gn")
      case False
      with True gc Cons.prems Cons.IH[of opn g] show ?thesis by (simp add: Let_def)
    next
      case push: True
      let ?e = "(gc + 1 + \<bar>fst ?n - fst t\<bar> + \<bar>snd ?n - snd t\<bar>, ?n, pth @ [c])"
      from push True gc Cons.prems have
        "relax s t c pth ds (heappush opn ?e) (g(?n \<mapsto> gc + 1)) = Inr (opn', g')"
        by (simp add: Let_def)
      from Cons.IH[OF this] True show ?thesis
        by (auto simp: heappush_def passable_def)
    qed
  qed
qed

lemma heappop_set:
  assumes "heappop e es = (m, rest)"
  shows "m \<in> set (e # es)" and "set rest \<subseteq> set (e # es)"
proof -
  from assms have m: "m = least_entry e es" and r: "rest = remove1 m (e # es)"
    by (auto simp: heappop_def Let_def simp del: remove1.simps)
  show "m \<in> set (e # es)" unfolding m by (rule least_entry_mem)
  show "set rest \<subseteq> set (e # es)" unfolding r by (rule set_remove1_subset)
qed

termination astar_loop
proof (relation
    "measures [\<lambda>(s, t, opn, g, vis). card (({p. in_bounds s p} \<union> (fst \<circ> snd) ` set opn) - vis),
               \<lambda>(s, t, opn, g, vis). length opn]", goal_cases)
  case 1
  then show ?case by simp
next
  case (2 s target e es g visited m rest cur pth)
  from 2(1)[symmetric] have len: "length rest = length es"
    by (rule heappop_length)
  from 2(1)[symmetric] have sub: "set rest \<subseteq> set (e # es)"
    by (rule heappop_set(2))
  have "({p. in_bounds s p} \<union> (fst \<circ> snd) ` set rest) - visited
          \<subseteq> ({p. in_bounds s p} \<union> (fst \<circ> snd) ` set (e # es)) - visited"
    using sub by blast
  then have "card (({p. in_bounds s p} \<union> (fst \<circ> snd) ` set rest) - visited)
          \<le> card (({p. in_bounds s p} \<union> (fst \<circ> snd) ` set (e # es)) - visited)"
    by (intro card_mono) (simp_all add: finite_in_bounds)
  with len show ?case by auto
next
  case (3 s target e es g visited m rest cur pth r opn' g')
  from 3(1)[symmetric] have mem: "m \<in> set (e # es)" and sub: "set rest \<subseteq> set (e # es)"
    by (rule heappop_set(1), rule heappop_set(2))
  from 3 have rel: "relax s target cur pth directions rest g = Inr (opn', g')"
    by simp
  from 3 have cur: "cur = fst (snd m)" "cur \<notin> visited"
    by simp_all
  let ?C = "{p. in_bounds s p}"
  have "(fst \<circ> snd) ` set opn' \<subseteq> ?C \<union> (fst \<circ> snd) ` set rest"
    using relax_positions[OF rel] .
  with sub have a: "(?C \<union> (fst \<circ> snd) ` set opn') - insert cur visited
         \<subseteq> (?C \<union> (fst \<circ> snd) ` set (e # es)) - visited"
    by blast
  from mem cur have b: "cur \<in> (?C \<union> (fst \<circ> snd) ` set (e # es)) - visited"
    by (auto simp del: set_simps intro!: image_eqI[where x = m])
  from a b have "(?C \<union> (fst \<circ> snd) ` set opn') - insert cur visited
         \<subset> (?C \<union> (fst \<circ> snd) ` set (e # es)) - visited"
    by blast
  then have "card ((?C \<union> (fst \<circ> snd) ` set opn') - insert cur visited)
         < card ((?C \<union> (fst \<circ> snd) ` set (e # es)) - visited)"
    by (intro psubset_card_mono) (simp_all add: finite_in_bounds)
  then show ?case by simp
qed

text \<open>Lines 78-81: the queue, the cost map and the closed set at the start.\<close>

definition astar_pathfinding :: "state \<Rightarrow> pos \<Rightarrow> pos \<Rightarrow> error + path option" where
  "astar_pathfinding s start target =
     astar_loop s target (heappush [] (0, start, [])) [start \<mapsto> 0] {}"

subsection \<open>The planner of h1.py (lines 109-150)\<close>

text \<open>Lines 128-148: the loop over the four directions in the frontier branch.\<close>

fun h1_expand ::
  "state \<Rightarrow> pos \<Rightarrow> path \<Rightarrow> pos list \<Rightarrow> entry list \<Rightarrow> pos set
     \<Rightarrow> path option \<times> entry list \<times> pos set" where
  "h1_expand s current pth [] open_set visited = (None, open_set, visited)"
| "h1_expand s current pth (d # ds) open_set visited =
     (let neighbor = step_to current d in
      if in_bounds s neighbor
         \<and> cell_at (grid s) neighbor \<notin> {OBSTACLE, DYNAMIC_OBSTACLE}
         \<and> neighbor \<notin> visited then
        (let new_path = pth @ [neighbor] in
         if neighbor \<in> unvisited_cells s then (Some new_path, open_set, visited)
         else
           (let visited' = insert neighbor visited;
                priority = int (length new_path) - unexplored_neighbors s neighbor
            in h1_expand s current pth ds (heappush open_set (priority, neighbor, new_path))
                 visited'))
      else h1_expand s current pth ds open_set visited)"

lemma h1_expand_eq: "h1_expand s c pth ds opn vis = expand s c pth ds opn vis"
  by (induction ds arbitrary: opn vis) (simp_all add: Let_def passable_def)

text \<open>Lines 125-150: the \<open>while open_set\<close> loop of the frontier branch.\<close>

function h1_frontier_loop :: "state \<Rightarrow> entry list \<Rightarrow> pos set \<Rightarrow> path option" where
  "h1_frontier_loop s [] visited = None"
| "h1_frontier_loop s (e # es) visited =
     (case heappop e es of
        (m, rest) \<Rightarrow>
          (case h1_expand s (fst (snd m)) (snd (snd m)) directions rest visited of
             (Some p, open_set, visited') \<Rightarrow> Some p
           | (None, open_set, visited') \<Rightarrow> h1_frontier_loop s open_set visited'))"
  by pat_completeness auto

lemma expand_measure:
  assumes "heappop e es = (m, rest)"
    and "expand s c pth ds rest visited = (None, opn', vis')"
  shows "((s, opn', vis'), (s, e # es, visited))
           \<in> measures [\<lambda>(s, opn, vis). card ({p. in_bounds s p} - vis),
                        \<lambda>(s, opn, vis). length opn]"
proof -
  from assms(1) have len: "length rest = length es"
    by (rule heappop_length)
  from expand_grows[OF assms(2)] have g: "visited \<subseteq> vis'"
    "vis' - visited \<subseteq> {p. in_bounds s p}" "vis' = visited \<longrightarrow> opn' = rest"
    by auto
  show ?thesis
  proof (cases "vis' = visited")
    case True
    with g len show ?thesis by simp
  next
    case False
    with g have "{p. in_bounds s p} - vis' \<subset> {p. in_bounds s p} - visited"
      by blast
    then have "card ({p. in_bounds s p} - vis') < card ({p. in_bounds s p} - visited)"
      by (intro psubset_card_mono) (simp_all add: finite_in_bounds)
    then show ?thesis by simp
  qed
qed

termination h1_frontier_loop
proof (relation "measures [\<lambda>(s, opn, vis). card ({p. in_bounds s p} - vis),
                           \<lambda>(s, opn, vis). length opn]", goal_cases)
  case 1
  then show ?case by simp
next
  case (2 s e es visited m rest r ya opn' vis')
  then have "expand s (fst (snd m)) (snd (snd m)) directions rest visited = (None, opn', vis')"
    by (simp add: h1_expand_eq)
  with 2(1)[symmetric] show ?case
    by (rule expand_measure)
qed

text \<open>
  Lines 113-118: with exactly one unvisited cell the planner hands over to A*;
  \<open>next(iter(self.unvisited_cells))\<close> is then the one element of the set.
\<close>

definition h1_find_most_efficient_path :: "state \<Rightarrow> error + path option" where
  "h1_find_most_efficient_path s =
     (if card (unvisited_cells s) = 1 then
        astar_pathfinding s (robot_pos s) (the_elem (unvisited_cells s))
      else Inr (h1_frontier_loop s (heappush [] (0, robot_pos s, [])) {robot_pos s}))"

text \<open>\<open>move_robot\<close> of h1.py (lines 152-173): no test for a dynamic obstacle.\<close>

definition h1_move_robot :: "state \<Rightarrow> path \<Rightarrow> error + (bool \<times> state)" where
  "h1_move_robot s pth =
     (if pth = [] then Inr (False, s)
      else
        (case retrace (grid s) (butlast pth) of
           Inl e \<Rightarrow> Inl e
         | Inr g1 \<Rightarrow>
             (case grid_set g1 (robot_pos s) VISITED of
                Inl e \<Rightarrow> Inl e
              | Inr g2 \<Rightarrow>
                  (case grid_set g2 (last pth) ROBOT of
                     Inl e \<Rightarrow> Inl e
                   | Inr g3 \<Rightarrow>
                       Inr (True,
                            s\<lparr>grid := g3, robot_pos := last pth,
                               unvisited_cells := unvisited_cells s - {last pth},
                               visited_cells := insert (last pth) (visited_cells s)\<rparr>)))))"

text \<open>\<open>is_exploration_complete\<close> of h1.py (lines 175-179).\<close>

definition h1_is_exploration_complete :: "state \<Rightarrow> bool" where
  "h1_is_exploration_complete s \<longleftrightarrow> unvisited_cells s = {}"

subsection \<open>The robot's turn in the loop of h13.py (lines 278-296)\<close>

text \<open>Lines 283-287: the scan of the path for a cell marked DYNAMIC\_OBSTACLE.\<close>

fun path_blocked :: "cell list list \<Rightarrow> path \<Rightarrow> error + bool" where
  "path_blocked g [] = Inr False"
| "path_blocked g (p # ps) =
     (case grid_get g p of
        Inl e \<Rightarrow> Inl e
      | Inr c \<Rightarrow> if c = DYNAMIC_OBSTACLE then Inr True else path_blocked g ps)"

datatype turn = Moved | Waiting | NoPath

text \<open>
  The turn runs when the robot is not waiting and its delay has passed. \<open>Waiting\<close> is
  the branch that sets \<open>waiting_start_time\<close>; the timers themselves are not part of the
  session state.
\<close>

definition h13_robot_turn :: "state \<Rightarrow> error + (turn \<times> state)" where
  "h13_robot_turn s =
     (case h1_find_most_efficient_path s of
        Inl e \<Rightarrow> Inl e
      | Inr None \<Rightarrow> Inr (NoPath, s)
      | Inr (Some pth) \<Rightarrow>
          if pth = [] then Inr (NoPath, s)
          else
            (case path_blocked (grid s) pth of
               Inl e \<Rightarrow> Inl e
             | Inr blocked \<Rightarrow>
                 if blocked then Inr (Waiting, s)
                 else
                   (case h1_move_robot s pth of
                      Inl e \<Rightarrow> Inl e
                    | Inr (_, s') \<Rightarrow> Inr (Moved, s'))))"

text \<open>
  One round of the loop in which both delays have passed: the obstacles step (lines
  261-263), then the robot takes its turn. \<open>h13_rounds f ts\<close> runs the rounds \<open>ts\<close>,
  the shuffles of round \<open>t\<close> drawn by \<open>f t\<close>.
\<close>

definition h13_round :: "(nat \<Rightarrow> nat) \<Rightarrow> state \<Rightarrow> error + (turn \<times> state)" where
  "h13_round rs s =
     (case move_dynamic_obstacles rs s of
        Inl e \<Rightarrow> Inl e
      | Inr s1 \<Rightarrow> h13_robot_turn s1)"

fun h13_rounds :: "(nat \<Rightarrow> nat \<Rightarrow> nat) \<Rightarrow> nat list \<Rightarrow> state \<Rightarrow> error + state" where
  "h13_rounds f [] s = Inr s"
| "h13_rounds f (t # ts) s =
     (case h13_round (f t) s of
        Inl e \<Rightarrow> Inl e
      | Inr (_, s') \<Rightarrow> h13_rounds f ts s')"

section \<open>The planner of h14.py (lines 77-122)\<close>

text \<open>Lines 92-120: the loop over the four directions.\<close>

fun h14_expand ::
  "state \<Rightarrow> pos \<Rightarrow> path \<Rightarrow> pos list \<Rightarrow> entry list \<Rightarrow> pos set
     \<Rightarrow> path option \<times> entry list \<times> pos set" where
  "h14_expand s current pth [] open_set visited = (None, open_set, visited)"
| "h14_expand s current pth (d # ds) open_set visited =
     (let neighbor = step_to current d in
      if in_bounds s neighbor
         \<and> cell_at (grid s) neighbor \<notin> {OBSTACLE, DYNAMIC_OBSTACLE}
         \<and> neighbor \<notin> visited then
        (let new_path = pth @ [neighbor] in
         if neighbor \<in> unvisited_cells s then (Some new_path, open_set, visited)
         else
           (let visited' = insert neighbor visited;
                priority = int (length new_path) - unexplored_neighbors s neighbor
            in h14_expand s current pth ds (heappush open_set (priority, neighbor, new_path))
                 visited'))
      else h14_expand s current pth ds open_set visited)"

lemma h14_expand_eq: "h14_expand s c pth ds opn vis = expand s c pth ds opn vis"
  by (induction ds arbitrary: opn vis) (simp_all add: Let_def passable_def)

text \<open>Lines 88-122: the \<open>while open_set\<close> loop.\<close>

function h14_frontier_loop :: "state \<Rightarrow> entry list \<Rightarrow> pos set \<Rightarrow> path option" where
  "h14_frontier_loop s [] visited = None"
| "h14_frontier_loop s (e # es) visited =
     (case heappop e es of
        (m, rest) \<Rightarrow>
          (case h14_expand s (fst (snd m)) (snd (snd m)) directions rest visited of
             (Some p, open_set, visited') \<Rightarrow> Some p
           | (None, open_set, visited') \<Rightarrow> h14_frontier_loop s open_set visited'))"
  by pat_completeness auto

termination h14_frontier_loop
proof (relation "measures [\<lambda>(s, opn, vis). card ({p. in_bounds s p} - vis),
                           \<lambda>(s, opn, vis). length opn]", goal_cases)
  case 1
  then show ?case by simp
next
  case (2 s e es visited m rest r ya opn' vis')
  then have "expand s (fst (snd m)) (snd (snd m)) directions rest visited = (None, opn', vis')"
    by (simp add: h14_expand_eq)
  with 2(1)[symmetric] show ?case
    by (rule expand_measure)
qed

definition h14_find_most_efficient_path :: "state \<Rightarrow> path option" where
  "h14_find_most_efficient_path s =
     h14_frontier_loop s (heappush [] (0, robot_pos s, [])) {robot_pos s}"

section \<open>Runs of successful moves\<close>

text \<open>
  \<open>successful_moves n s\<close> is the state after \<open>n\<close> rounds of planning and moving in which
  the planner returned a path and \<open>move_robot\<close> returned True; it is None when one of
  the rounds did not move the robot.
\<close>

fun successful_moves :: "nat \<Rightarrow> state \<Rightarrow> state option" where
  "successful_moves 0 s = Some s"
| "successful_moves (Suc n) s =
     (case find_most_efficient_path s of
        None \<Rightarrow> None
      | Some pth \<Rightarrow>
          (case move_robot s pth of
             Inr (True, s') \<Rightarrow> successful_moves n s'
           | _ \<Rightarrow> None))"

section \<open>Concrete sessions\<close>

text \<open>A 2x2 session in which more than one cell is unvisited.\<close>

definition corner_session :: state where
  "corner_session =
     \<lparr> width = 2, height = 2,
       grid = [[ROBOT, DYNAMIC_OBSTACLE], [UNVISITED, UNVISITED]],
       robot_pos = (0, 0), visited_cells = {(0, 0)},
       unvisited_cells = {(0, 1), (1, 0), (1, 1)},
       dynamic_obstacles = [(1, 0)] \<rparr>"

text \<open>
  The 2x2 session that demo.py constructs when its three dynamic obstacles are drawn at
  (1,0), (0,1) and (1,1), and the session one obstacle step later.
\<close>

definition boxed_session :: state where
  "boxed_session =
     \<lparr> width = 2, height = 2,
       grid = [[ROBOT, DYNAMIC_OBSTACLE], [DYNAMIC_OBSTACLE, DYNAMIC_OBSTACLE]],
       robot_pos = (0, 0), visited_cells = {(0, 0)},
       unvisited_cells = {(0, 1), (1, 0), (1, 1)},
       dynamic_obstacles = [(1, 0), (0, 1), (1, 1)] \<rparr>"

definition boxed_stepped :: state where
  "boxed_stepped =
     \<lparr> width = 2, height = 2,
       grid = [[ROBOT, DYNAMIC_OBSTACLE], [UNVISITED, UNVISITED]],
       robot_pos = (0, 0), visited_cells = {(0, 0)},
       unvisited_cells = {(0, 1), (1, 0), (1, 1)},
       dynamic_obstacles = [(1, 0), (0, 1), (1, 0)] \<rparr>"

text \<open>The 4x4 session with no static and no dynamic obstacle.\<close>

definition open_4x4 :: state where
  "open_4x4 =
     \<lparr> width = 4, height = 4,
       grid = [[ROBOT, UNVISITED, UNVISITED, UNVISITED],
               [UNVISITED, UNVISITED, UNVISITED, UNVISITED],
               [UNVISITED, UNVISITED, UNVISITED, UNVISITED],
               [UNVISITED, UNVISITED, UNVISITED, UNVISITED]],
       robot_pos = (0, 0), visited_cells = {(0, 0)},
       unvisited_cells =
         {(0, 1), (0, 2), (0, 3), (1, 0), (1, 1), (1, 2), (1, 3), (2, 0),
          (2, 1), (2, 2), (2, 3), (3, 0), (3, 1), (3, 2), (3, 3)},
       dynamic_obstacles = [] \<rparr>"

section \<open>Predicates of the properties, and further concrete sessions\<close>

text \<open>The grid has \<open>h\<close> rows of \<open>w\<close> cells.\<close>

definition grid_shape :: "int \<Rightarrow> int \<Rightarrow> cell list list \<Rightarrow> bool" where
  "grid_shape w h g \<longleftrightarrow> length g = nat h \<and> list_all (\<lambda>row. length row = nat w) g"

text \<open>
  The coordinates Python's indexing of a \<open>w\<close> by \<open>h\<close> grid refuses: those at or beyond
  the bound, and the negative ones too far out to count from the end.
\<close>

definition rejects :: "int \<Rightarrow> int \<Rightarrow> pos \<Rightarrow> bool" where
  "rejects w h p \<longleftrightarrow> w \<le> fst p \<or> h \<le> snd p \<or> fst p < - w \<or> snd p < - h"

text \<open>
  The 2x2 session that demo.py constructs from the obstacle list \<open>[(-1, -1)]\<close> when
  the dynamic obstacles are drawn at (0,0), (1,0) and (0,1).
\<close>

definition wrapped_session :: state where
  "wrapped_session =
     \<lparr> width = 2, height = 2,
       grid = [[ROBOT, DYNAMIC_OBSTACLE], [DYNAMIC_OBSTACLE, OBSTACLE]],
       robot_pos = (0, 0), visited_cells = {(0, 0)},
       unvisited_cells = {(0, 1), (1, 0), (1, 1)},
       dynamic_obstacles = [(0, 0), (1, 0), (0, 1)] \<rparr>"

text \<open>Two cells are 4-connected neighbours; a sequence of cells steps between such.\<close>

definition adjacent :: "pos \<Rightarrow> pos \<Rightarrow> bool" where
  "adjacent p q \<longleftrightarrow> \<bar>fst p - fst q\<bar> + \<bar>snd p - snd q\<bar> = 1"

fun connected :: "path \<Rightarrow> bool" where
  "connected [] = True"
| "connected [p] = True"
| "connected (p # q # ps) = (adjacent p q \<and> connected (q # ps))"

text \<open>What the frontier search promises of a path it returns from the state \<open>s\<close>.\<close>

definition frontier_path :: "state \<Rightarrow> path \<Rightarrow> bool" where
  "frontier_path s p \<longleftrightarrow>
     p \<noteq> [] \<and> connected (robot_pos s # p) \<and> robot_pos s \<notin> set p
     \<and> list_all (passable s) p
     \<and> last p \<in> unvisited_cells s
     \<and> list_all (\<lambda>q. q \<notin> unvisited_cells s) (butlast p)"

text \<open>What holds of every entry \<open>(priority, cell, path)\<close> in the queue of the search.\<close>

definition queued :: "state \<Rightarrow> entry \<Rightarrow> bool" where
  "queued s e \<longleftrightarrow>
     fst (snd e) = last (robot_pos s # snd (snd e))
     \<and> connected (robot_pos s # snd (snd e))
     \<and> robot_pos s \<notin> set (snd (snd e))
     \<and> list_all (passable s) (snd (snd e))
     \<and> list_all (\<lambda>q. q \<notin> unvisited_cells s) (snd (snd e))"

text \<open>A 3x3 session whose only unvisited cell is (2,2), the robot at (0,0).\<close>

definition last_cell_3x3 :: state where
  "last_cell_3x3 =
     \<lparr> width = 3, height = 3,
       grid = [[ROBOT, VISITED, VISITED],
               [VISITED, VISITED, VISITED],
               [VISITED, VISITED, UNVISITED]],
       robot_pos = (0, 0),
       visited_cells = {(0, 0), (0, 1), (0, 2), (1, 0), (1, 1), (1, 2), (2, 0), (2, 1)},
       unvisited_cells = {(2, 2)},
       dynamic_obstacles = [] \<rparr>"

text \<open>What holds of every entry in the queue of A*: queued path and cell, joined.\<close>

definition astar_queued :: "state \<Rightarrow> pos \<Rightarrow> entry \<Rightarrow> bool" where
  "astar_queued s start e \<longleftrightarrow>
     hd (snd (snd e) @ [fst (snd e)]) = start
     \<and> connected (snd (snd e) @ [fst (snd e)])
     \<and> list_all (passable s) (tl (snd (snd e) @ [fst (snd e)]))"

text \<open>The 5x5 session with no static and no dynamic obstacle.\<close>

definition open_5x5 :: state where
  "open_5x5 =
     \<lparr> width = 5, height = 5,
       grid = [[ROBOT, UNVISITED, UNVISITED, UNVISITED, UNVISITED],
               [UNVISITED, UNVISITED, UNVISITED, UNVISITED, UNVISITED],
               [UNVISITED, UNVISITED, UNVISITED, UNVISITED, UNVISITED],
               [UNVISITED, UNVISITED, UNVISITED, UNVISITED, UNVISITED],
               [UNVISITED, UNVISITED, UNVISITED, UNVISITED, UNVISITED]],
       robot_pos = (0, 0), visited_cells = {(0, 0)},
       unvisited_cells =
         {(0, 1), (0, 2), (0, 3), (0, 4), (1, 0), (1, 1), (1, 2), (1, 3),
          (1, 4), (2, 0), (2, 1), (2, 2), (2, 3), (2, 4), (3, 0), (3, 1),
          (3, 2), (3, 3), (3, 4), (4, 0), (4, 1), (4, 2), (4, 3), (4, 4)},
       dynamic_obstacles = [] \<rparr>"

text \<open>
  A run of h13.py on a 3x2 grid: the session its constructor builds when the five
  dynamic obstacles are drawn at (0,0), (1,0), (2,0), (0,1) and (1,1); the session seven
  rounds later; and that session after the obstacles have stepped once more, when one
  cell is left to visit and an obstacle has moved onto the cell the robot stands on.
\<close>

definition crowded_start :: state where
  "crowded_start =
     \<lparr> width = 3, height = 2,
       grid = [[ROBOT, DYNAMIC_OBSTACLE, DYNAMIC_OBSTACLE],
               [DYNAMIC_OBSTACLE, DYNAMIC_OBSTACLE, UNVISITED]],
       robot_pos = (0, 0), visited_cells = {(0, 0)},
       unvisited_cells = {(0, 1), (1, 0), (1, 1), (2, 0), (2, 1)},
       dynamic_obstacles = [(0, 0), (1, 0), (2, 0), (0, 1), (1, 1)] \<rparr>"

definition crowded_late :: state where
  "crowded_late =
     \<lparr> width = 3, height = 2,
       grid = [[VISITED, DYNAMIC_OBSTACLE, VISITED],
               [DYNAMIC_OBSTACLE, DYNAMIC_OBSTACLE, DYNAMIC_OBSTACLE]],
       robot_pos = (2, 0),
       visited_cells = {(2, 0), (2, 1), (1, 1), (0, 1), (0, 0)},
       unvisited_cells = {(1, 0)},
       dynamic_obstacles = [(1, 1), (1, 0), (2, 1), (2, 1), (0, 1)] \<rparr>"

definition crowded_session :: state where
  "crowded_session =
     \<lparr> width = 3, height = 2,
       grid = [[DYNAMIC_OBSTACLE, UNVISITED, DYNAMIC_OBSTACLE],
               [VISITED, DYNAMIC_OBSTACLE, VISITED]],
       robot_pos = (2, 0),
       visited_cells = {(2, 0), (2, 1), (1, 1), (0, 1), (0, 0)},
       unvisited_cells = {(1, 0)},
       dynamic_obstacles = [(1, 1), (0, 0), (2, 0), (1, 1), (0, 1)] \<rparr>"

text \<open>
  What every session keeps: the grid has its shape; the robot and the dynamic obstacles
  are in bounds and not on an OBSTACLE cell; a cell the grid shows UNVISITED is in
  \<open>unvisited_cells\<close>.
\<close>

definition session_inv :: "state \<Rightarrow> bool" where
  "session_inv s \<longleftrightarrow>
     grid_shape (width s) (height s) (grid s)
     \<and> in_bounds s (robot_pos s) \<and> cell_at (grid s) (robot_pos s) \<noteq> OBSTACLE
     \<and> list_all (\<lambda>d. in_bounds s d \<and> cell_at (grid s) d \<noteq> OBSTACLE) (dynamic_obstacles s)
     \<and> (\<forall>p. in_bounds s p \<and> cell_at (grid s) p = UNVISITED \<longrightarrow> p \<in> unvisited_cells s)"

text \<open>Two sessions of one size with the same OBSTACLE cells.\<close>

definition same_terrain :: "state \<Rightarrow> state \<Rightarrow> bool" where
  "same_terrain s s' \<longleftrightarrow>
     width s' = width s \<and> height s' = height s
     \<and> (\<forall>p. in_bounds s p \<longrightarrow>
           (cell_at (grid s') p = OBSTACLE) = (cell_at (grid s) p = OBSTACLE))"

text \<open>What a step of the dynamic obstacles leaves as it was.\<close>

definition kept :: "state \<Rightarrow> state \<Rightarrow> bool" where
  "kept s s' \<longleftrightarrow>
     same_terrain s s' \<and> robot_pos s' = robot_pos s
     \<and> visited_cells s' = visited_cells s \<and> unvisited_cells s' = unvisited_cells s
     \<and> length (dynamic_obstacles s') = length (dynamic_obstacles s)"

text \<open>
  What holds while the constructor runs, before line 47 marks the robot's cell: as
  \<open>session_inv\<close>, but the cell at the origin may still be shown UNVISITED, or OBSTACLE.
\<close>

definition building :: "state \<Rightarrow> bool" where
  "building s \<longleftrightarrow>
     grid_shape (width s) (height s) (grid s) \<and> robot_pos s = (0, 0)
     \<and> list_all (\<lambda>d. in_bounds s d \<and> cell_at (grid s) d \<noteq> OBSTACLE) (dynamic_obstacles s)
     \<and> (\<forall>p. in_bounds s p \<and> cell_at (grid s) p = UNVISITED \<and> p \<noteq> (0, 0)
            \<longrightarrow> p \<in> unvisited_cells s)"

text \<open>The cells of the grid, and those of them the grid does not show as OBSTACLE.\<close>

definition all_cells :: "state \<Rightarrow> pos list" where
  "all_cells s = List.product [0..width s - 1] [0..height s - 1]"

definition free_cells :: "state \<Rightarrow> pos list" where
  "free_cells s = filter (\<lambda>p. cell_at (grid s) p \<noteq> OBSTACLE) (all_cells s)"

text \<open>The visited and the unvisited cells are disjoint and together the free cells.\<close>

definition partitioned :: "state \<Rightarrow> bool" where
  "partitioned s \<longleftrightarrow>
     visited_cells s \<inter> unvisited_cells s = {}
     \<and> visited_cells s \<union> unvisited_cells s = set (free_cells s)"

text \<open>
  The sessions a session can become: by a step of the dynamic obstacles, whatever the
  shuffles, or by a move of the robot along the path the planner has just returned.
\<close>

inductive reaches :: "state \<Rightarrow> state \<Rightarrow> bool" where
  reaches_start: "reaches s s"
| reaches_obstacles:
    "reaches s0 s \<Longrightarrow> move_dynamic_obstacles rs s = Inr s' \<Longrightarrow> reaches s0 s'"
| reaches_robot:
    "reaches s0 s \<Longrightarrow> find_most_efficient_path s = Some p \<Longrightarrow> move_robot s p = Inr (b, s')
       \<Longrightarrow> reaches s0 s'"

text \<open>
  A script of steps, run from a session: \<open>Obstacles k\<close> steps the dynamic obstacles with
  every shuffle drawn as \<open>k\<close>, \<open>Robot\<close> plans and moves.
\<close>

datatype move = Obstacles nat | Robot

fun run :: "move list \<Rightarrow> state \<Rightarrow> state option" where
  "run [] s = Some s"
| "run (Obstacles k # ms) s =
     (case move_dynamic_obstacles (\<lambda>i. k) s of
        Inl e \<Rightarrow> None
      | Inr s' \<Rightarrow> run ms s')"
| "run (Robot # ms) s =
     (case find_most_efficient_path s of
        None \<Rightarrow> None
      | Some p \<Rightarrow>
          (case move_robot s p of
             Inl e \<Rightarrow> None
           | Inr (b, s') \<Rightarrow> run ms s'))"

text \<open>
  The 3x2 session demo.py constructs from the obstacle list \<open>[(2, 1)]\<close> when the dynamic
  obstacles are drawn at (1,0), (1,1) and (2,0); that session after one obstacle step and
  one move of the robot; and after an obstacle step, a move and another obstacle step
  with other shuffles.
\<close>

definition walled_session :: state where
  "walled_session =
     \<lparr> width = 3, height = 2,
       grid = [[ROBOT, DYNAMIC_OBSTACLE, DYNAMIC_OBSTACLE],
               [UNVISITED, DYNAMIC_OBSTACLE, OBSTACLE]],
       robot_pos = (0, 0), visited_cells = {(0, 0)},
       unvisited_cells = {(0, 1), (1, 0), (1, 1), (2, 0)},
       dynamic_obstacles = [(1, 0), (1, 1), (2, 0)] \<rparr>"

definition walled_moved :: state where
  "walled_moved =
     \<lparr> width = 3, height = 2,
       grid = [[VISITED, DYNAMIC_OBSTACLE, UNVISITED],
               [ROBOT, UNVISITED, OBSTACLE]],
       robot_pos = (0, 1), visited_cells = {(0, 1), (0, 0)},
       unvisited_cells = {(1, 0), (1, 1), (2, 0)},
       dynamic_obstacles = [(1, 0), (1, 0), (2, 0)] \<rparr>"

definition walled_shuffled :: state where
  "walled_shuffled =
     \<lparr> width = 3, height = 2,
       grid = [[DYNAMIC_OBSTACLE, DYNAMIC_OBSTACLE, UNVISITED],
               [ROBOT, UNVISITED, OBSTACLE]],
       robot_pos = (0, 1), visited_cells = {(0, 1), (0, 0)},
       unvisited_cells = {(1, 0), (1, 1), (2, 0)},
       dynamic_obstacles = [(2, 0), (0, 0), (1, 0)] \<rparr>"

text \<open>\<open>boxed_session\<close> after two obstacle steps and three moves: every cell is visited.\<close>

definition explored_2x2 :: state where
  "explored_2x2 =
     \<lparr> width = 2, height = 2,
       grid = [[DYNAMIC_OBSTACLE, ROBOT], [VISITED, VISITED]],
       robot_pos = (1, 0), visited_cells = {(1, 0), (1, 1), (0, 1), (0, 0)},
       unvisited_cells = {}, dynamic_obstacles = [(0, 0), (0, 1), (1, 0)] \<rparr>"

text \<open>
  \<open>boxed_session\<close>, which demo.py also constructs from the obstacle list \<open>[(0, 0)]\<close>,
  after an obstacle step, a move of the robot and another obstacle step.
\<close>

definition start_taken :: state where
  "start_taken =
     \<lparr> width = 2, height = 2,
       grid = [[DYNAMIC_OBSTACLE, UNVISITED], [VISITED, DYNAMIC_OBSTACLE]],
       robot_pos = (0, 1), visited_cells = {(0, 1), (0, 0)},
       unvisited_cells = {(1, 0), (1, 1)},
       dynamic_obstacles = [(0, 0), (1, 1), (1, 0)] \<rparr>"

section \<open>The random source and the cost map\<close>

text \<open>
  The draws cover what the library can return: \<open>randint\<close> every value of its range,
  \<open>shuffle\<close> every order of the four directions (24 different permutations).
\<close>

lemma randint_any: "a \<le> v \<Longrightarrow> v \<le> b \<Longrightarrow> randint a b (v - a) = Inr v"
  by (simp add: randint_def)

lemma shuffle_length: "length (shuffle r xs) = length xs"
  by (induction xs arbitrary: r) (simp_all add: Let_def)

lemma shuffle_set: "set (shuffle r xs) = set xs"
proof (induction xs arbitrary: r)
  case Nil
  then show ?case by simp
next
  case (Cons x xs)
  let ?ys = "shuffle (r div Suc (length xs)) xs"
  have "set (take (r mod Suc (length xs)) ?ys) \<union> set (drop (r mod Suc (length xs)) ?ys) = set ?ys"
    by (metis append_take_drop_id set_append)
  with Cons.IH[of "r div Suc (length xs)"] show ?case
    by (auto simp: Let_def)
qed

lemma shuffle_directions_all: "distinct (map (\<lambda>r. shuffle r directions) [0..<24])"
  by code_simp

text \<open>
  A* never raises: every queued cell has its cost in \<open>g_score\<close>, so the KeyError of
  \<open>g_score[current]\<close> does not occur, and so the planner of h1.py returns.
\<close>

lemma relax_keys:
  assumes "c \<in> dom g" and "\<forall>e\<in>set opn. fst (snd e) \<in> dom g"
  shows "\<exists>opn' g'. relax s t c pth ds opn g = Inr (opn', g')
           \<and> (\<forall>e\<in>set opn'. fst (snd e) \<in> dom g')"
  using assms
proof (induction ds arbitrary: opn g)
  case Nil
  then show ?case by simp
next
  case (Cons d ds)
  let ?n = "step_to c d"
  from Cons.prems(1) obtain gc where gc: "g c = Some gc"
    by auto
  show ?case
  proof (cases "passable s ?n \<and> (case g ?n of None \<Rightarrow> True | Some gn \<Rightarrow> gc + 1 < gn)")
    case False
    with gc have "relax s t c pth (d # ds) opn g = relax s t c pth ds opn g"
      by (auto simp: Let_def)
    with Cons.IH[OF Cons.prems] show ?thesis
      by simp
  next
    case True
    let ?e = "(gc + 1 + \<bar>fst ?n - fst t\<bar> + \<bar>snd ?n - snd t\<bar>, ?n, pth @ [c])"
    let ?g = "g(?n \<mapsto> gc + 1)"
    from True gc have eq: "relax s t c pth (d # ds) opn g = relax s t c pth ds (heappush opn ?e) ?g"
      by (simp add: Let_def)
    from Cons.prems have "c \<in> dom ?g" and "\<forall>e\<in>set (heappush opn ?e). fst (snd e) \<in> dom ?g"
      by (auto simp: heappush_def)
    from Cons.IH[OF this] show ?thesis
      unfolding eq .
  qed
qed

lemma astar_loop_returns:
  "\<forall>e\<in>set opn. fst (snd e) \<in> dom g \<Longrightarrow> \<exists>r. astar_loop s t opn g vis = Inr r"
proof (induction s t opn g vis rule: astar_loop.induct)
  case (1 s target g_score visited)
  then show ?case by simp
next
  case (2 s target e es g visited)
  obtain m rest where pop: "heappop e es = (m, rest)"
    by (cases "heappop e es")
  from heappop_set[OF pop] "2.prems"
  have cm: "fst (snd m) \<in> dom g" and rest: "\<forall>e\<in>set rest. fst (snd e) \<in> dom g"
    by auto
  let ?c = "fst (snd m)" and ?pth = "snd (snd m)"
  show ?case
  proof (cases "?c = target")
    case True
    with pop show ?thesis
      by (simp add: Let_def)
  next
    case False
    show ?thesis
    proof (cases "?c \<in> visited")
      case True
      from "2.IH"(1)[OF pop[symmetric] refl refl False True rest] False True pop
      show ?thesis
        by (simp add: Let_def)
    next
      case nv: False
      from relax_keys[OF cm rest, of s target ?pth directions] obtain opn' g' where
        rl: "relax s target ?c ?pth directions rest g = Inr (opn', g')"
        and k: "\<forall>e\<in>set opn'. fst (snd e) \<in> dom g'"
        by blast
      from "2.IH"(2)[OF pop[symmetric] refl refl False nv rl refl k] False nv pop rl
      show ?thesis
        by (simp add: Let_def)
    qed
  qed
qed

lemma astar_pathfinding_returns: "\<exists>r. astar_pathfinding s start target = Inr r"
  unfolding astar_pathfinding_def
  by (rule astar_loop_returns) (simp add: heappush_def)

lemma h1_find_returns: "\<exists>r. h1_find_most_efficient_path s = Inr r"
  using astar_pathfinding_returns by (simp add: h1_find_most_efficient_path_def)

section \<open>The three frontier searches agree\<close>

lemma h1_frontier_loop_eq: "h1_frontier_loop s opn vis = frontier_loop s opn vis"
  by (induction s opn vis rule: frontier_loop.induct)
     (auto simp: h1_expand_eq split: prod.splits option.splits)

lemma h14_frontier_loop_eq: "h14_frontier_loop s opn vis = frontier_loop s opn vis"
  by (induction s opn vis rule: frontier_loop.induct)
     (auto simp: h14_expand_eq split: prod.splits option.splits)

text \<open>
  Claim C10. In a state with more than one unvisited cell the planners of demo.py,
  h1.py and h14.py return the same result: the same path, or None in the same states
  (the planner of h1.py, which can raise, returns normally there).
\<close>

theorem planners_agree:
  assumes "1 < card (unvisited_cells s)"
  shows "h1_find_most_efficient_path s = Inr (find_most_efficient_path s)
       \<and> h14_find_most_efficient_path s = find_most_efficient_path s"
  using assms
  by (simp add: h1_find_most_efficient_path_def h14_find_most_efficient_path_def
      find_most_efficient_path_def h1_frontier_loop_eq h14_frontier_loop_eq)

theorem planners_agree_witness:
  "1 < card (unvisited_cells corner_session)
   \<and> h1_find_most_efficient_path corner_session = Inr (Some [(0, 1)])
   \<and> h14_find_most_efficient_path corner_session = Some [(0, 1)]"
proof -
  have c: "1 < card (unvisited_cells corner_session)"
    by (simp add: corner_session_def)
  have f: "find_most_efficient_path corner_session = Some [(0, 1)]"
    by code_simp
  from planners_agree[OF c] c f show ?thesis
    by simp
qed

section \<open>An obstacle that cannot move\<close>

text \<open>
  Claim C9 fails on the code. In \<open>boxed_session\<close> the obstacle of index 1 stands on
  (0,1) with no admissible neighbour. The step restores its cell to UNVISITED before it
  looks for a direction and, finding none, leaves the cell so: after the call the list
  still holds (0,1), and the grid does not mark it DYNAMIC\_OBSTACLE.
\<close>

theorem stuck_obstacle_left_unmarked:
  "RobotNavigation 2 2 [] [(1, 0), (0, 1), (1, 1)] = Inr boxed_session
   \<and> move_dynamic_obstacles (\<lambda>i. 0) boxed_session = Inr boxed_stepped
   \<and> dynamic_obstacles boxed_stepped ! 1 = (0, 1)
   \<and> grid_get (grid boxed_stepped) (0, 1) = Inr UNVISITED"
proof -
  have a: "RobotNavigation 2 2 [] [(1, 0), (0, 1), (1, 1)] = Inr boxed_session"
    by code_simp
  have b: "move_dynamic_obstacles (\<lambda>i. 0) boxed_session = Inr boxed_stepped"
    by code_simp
  have c: "dynamic_obstacles boxed_stepped ! 1 = (0, 1)"
    by (simp add: boxed_stepped_def)
  have d: "grid_get (grid boxed_stepped) (0, 1) = Inr UNVISITED"
    by (simp add: boxed_stepped_def grid_get_def py_index_def)
  from a b c d show ?thesis
    by simp
qed

section \<open>Covering the open 4x4 grid\<close>

text \<open>
  Claim C8 as stated fails: the start cell counts as visited from the beginning, so the
  open 4x4 grid has fifteen cells to visit, and after fifteen successful moves the
  planner returns None. A run of sixteen successful moves does not exist.
\<close>

theorem no_sixteenth_move:
  "init_session 0 4 4 [] [] = Inr open_4x4 \<and> successful_moves 16 open_4x4 = None"
proof -
  have a: "init_session 0 4 4 [] [] = Inr open_4x4"
    by code_simp
  have b: "successful_moves 16 open_4x4 = None"
    by code_simp
  from a b show ?thesis
    by simp
qed

text \<open>
  Claim C8, amended. On the open 4x4 grid with the robot at (0,0), exploration is
  complete after exactly fifteen successful moves and after no fewer, and the planner
  then returns None.
\<close>

theorem complete_after_fifteen_moves:
  "init_session 0 4 4 [] [] = Inr open_4x4
   \<and> map (\<lambda>k. map_option is_exploration_complete (successful_moves k open_4x4)) [0..<16]
       = replicate 15 (Some False) @ [Some True]
   \<and> map_option find_most_efficient_path (successful_moves 15 open_4x4) = Some None"
proof -
  have a: "init_session 0 4 4 [] [] = Inr open_4x4"
    by code_simp
  have b: "map (\<lambda>k. map_option is_exploration_complete (successful_moves k open_4x4)) [0..<16]
       = replicate 15 (Some False) @ [Some True]"
    by code_simp
  have c: "map_option find_most_efficient_path (successful_moves 15 open_4x4) = Some None"
    by code_simp
  from a b c show ?thesis
    by simp
qed

section \<open>What the constructor rejects\<close>

lemma grid_shape_row: "grid_shape w h g \<Longrightarrow> j < nat h \<Longrightarrow> length (g ! j) = nat w"
  by (simp add: grid_shape_def list_all_length)

lemma grid_shape_update:
  assumes "grid_shape w h g" and "j < length g"
  shows "grid_shape w h (g[j := (g ! j)[i := v]])"
  using assms
  by (auto simp: grid_shape_def list_all_length nth_list_update)

lemma grid_set_shape:
  assumes "grid_shape w h g" and "grid_set g p v = Inr g'"
  shows "grid_shape w h g'"
proof -
  from assms(2) obtain j i where j: "py_index (snd p) (length g) = Inr j"
    and g': "g' = g[j := (g ! j)[i := v]]"
    by (auto simp: grid_set_def split: sum.splits)
  from j have "j < length g"
    by (auto simp: py_index_def split: if_splits)
  with assms(1) show ?thesis unfolding g'
    by (rule grid_shape_update)
qed

lemma grid_set_rejects:
  assumes "grid_shape w h g" and "w \<le> 0 \<or> h \<le> 0 \<or> rejects w h p"
  shows "grid_set g p v = Inl IndexError"
proof (cases "py_index (snd p) (length g)")
  case (Inl e)
  then show ?thesis
    by (auto simp: grid_set_def py_index_def split: if_splits)
next
  case (Inr j)
  then have j: "j < nat h"
    using assms(1) by (auto simp: py_index_def grid_shape_def split: if_splits)
  with assms(1) have len: "length (g ! j) = nat w"
    by (rule grid_shape_row)
  from Inr assms(1) have "0 < h" "snd p < h" "- h \<le> snd p"
    by (auto simp: py_index_def grid_shape_def split: if_splits)
  with assms(2) have "w \<le> 0 \<or> w \<le> fst p \<or> fst p < - w"
    by (auto simp: rejects_def)
  then have "py_index (fst p) (nat w) = Inl IndexError"
    by (auto simp: py_index_def)
  with Inr len show ?thesis
    by (simp add: grid_set_def)
qed

lemma place_static_raises:
  assumes "grid_shape (width s) (height s) (grid s)"
    and "(width s \<le> 0 \<or> height s \<le> 0) \<and> obs \<noteq> [] \<or> (\<exists>p\<in>set obs. rejects (width s) (height s) p)"
  shows "place_static s obs = Inl IndexError"
  using assms
proof (induction obs arbitrary: s)
  case Nil
  then show ?case by simp
next
  case (Cons p ps)
  show ?case
  proof (cases "grid_set (grid s) p OBSTACLE")
    case (Inl e)
    have "width s \<le> 0 \<or> height s \<le> 0 \<or> rejects (width s) (height s) p \<Longrightarrow> e = IndexError"
      using grid_set_rejects[OF Cons.prems(1), of p OBSTACLE] Inl by simp
    moreover have "e = IndexError"
      using Inl by (auto simp: grid_set_def py_index_def split: sum.splits if_splits)
    ultimately show ?thesis using Inl by simp
  next
    case (Inr g)
    let ?s = "s\<lparr>grid := g, unvisited_cells := unvisited_cells s - {p}\<rparr>"
    from Inr grid_set_rejects[OF Cons.prems(1), of p OBSTACLE]
    have ok: "\<not> (width s \<le> 0 \<or> height s \<le> 0 \<or> rejects (width s) (height s) p)"
      by auto
    with Cons.prems(2) have "\<exists>q\<in>set ps. rejects (width s) (height s) q"
      by auto
    moreover have "grid_shape (width ?s) (height ?s) (grid ?s)"
      using grid_set_shape[OF Cons.prems(1) Inr] by simp
    ultimately have "place_static ?s ps = Inl IndexError"
      using Cons.IH[of ?s] by simp
    with Inr show ?thesis by simp
  qed
qed

lemma fresh_shape: "grid_shape w h (grid (fresh_session w h))"
  by (simp add: fresh_session_def grid_shape_def list_all_length)

lemma place_dynamic_empty_range:
  "width s \<le> 0 \<or> height s \<le> 0 \<Longrightarrow> place_dynamic s rs = Inl ValueError"
  by (cases rs) (auto simp: randint_def)

text \<open>
  Claim C6 as stated fails: the constructor validates nothing. The obstacle coordinate
  (-1,-1) is outside the 2x2 grid, and the constructor returns a session in which the
  write has wrapped around to cell (1,1), which stays in \<open>unvisited_cells\<close>.
\<close>

theorem negative_obstacle_accepted:
  "RobotNavigation 2 2 [(-1, -1)] [(0, 0), (1, 0), (0, 1)] = Inr wrapped_session"
  by code_simp

text \<open>
  Claim C6, amended. When the width or the height is not positive, or a static
  obstacle coordinate is one that list indexing refuses, the constructor of demo.py
  raises IndexError or ValueError and returns no session, whatever the random draws.
\<close>

theorem construction_raises:
  assumes "w \<le> 0 \<or> h \<le> 0 \<or> (\<exists>p\<in>set obstacles. rejects w h p)"
  shows "RobotNavigation w h obstacles draws = Inl IndexError
       \<or> RobotNavigation w h obstacles draws = Inl ValueError"
proof (cases "obstacles = [] \<and> (w \<le> 0 \<or> h \<le> 0)")
  case True
  then have "place_dynamic (fresh_session w h) draws = Inl ValueError"
    by (intro place_dynamic_empty_range) (simp add: fresh_session_def)
  with True show ?thesis
    by (simp add: RobotNavigation_def init_session_def numeral_3_eq_3)
next
  case False
  with assms have "(w \<le> 0 \<or> h \<le> 0) \<and> obstacles \<noteq> [] \<or> (\<exists>p\<in>set obstacles. rejects w h p)"
    by auto
  then have "place_static (fresh_session w h) obstacles = Inl IndexError"
    using place_static_raises[of "fresh_session w h" obstacles] fresh_shape[of w h]
    by (simp add: fresh_session_def)
  then show ?thesis
    by (simp add: RobotNavigation_def init_session_def)
qed

theorem construction_raises_witness:
  "rejects 2 2 (2, 0)
   \<and> (RobotNavigation 2 2 [(1, 1), (2, 0)] [] = Inl IndexError
      \<or> RobotNavigation 2 2 [(1, 1), (2, 0)] [] = Inl ValueError)
   \<and> (RobotNavigation 0 3 [] [(0, 0)] = Inl IndexError
      \<or> RobotNavigation 0 3 [] [(0, 0)] = Inl ValueError)"
proof -
  have r: "rejects 2 2 (2, 0)"
    by (simp add: rejects_def)
  then have a: "(2::int) \<le> 0 \<or> (2::int) \<le> 0 \<or> (\<exists>p\<in>set [(1, 1), (2, 0)]. rejects 2 2 p)"
    by simp
  have b: "(0::int) \<le> 0 \<or> (3::int) \<le> 0 \<or> (\<exists>p\<in>set []. rejects 0 3 p)"
    by simp
  from r construction_raises[OF a, of "[]"] construction_raises[OF b, of "[(0, 0)]"]
  show ?thesis
    by simp
qed

section \<open>Paths\<close>

lemma adjacent_step: "d \<in> set directions \<Longrightarrow> adjacent c (step_to c d)"
  by (auto simp: directions_def adjacent_def step_to_def)

lemma connected_snoc:
  "connected xs \<Longrightarrow> xs \<noteq> [] \<Longrightarrow> adjacent (last xs) b \<Longrightarrow> connected (xs @ [b])"
  by (induction xs rule: connected.induct) auto

lemma expand_queued:
  assumes "set ds \<subseteq> set directions"
    and "queued s (pr, c, pth)"
    and "list_all (queued s) opn"
    and "robot_pos s \<in> vis"
    and "expand s c pth ds opn vis = (r, opn', vis')"
  shows "robot_pos s \<in> vis' \<and> list_all (queued s) opn'
       \<and> (case r of None \<Rightarrow> True | Some p \<Rightarrow> frontier_path s p)"
  using assms
proof (induction ds arbitrary: opn vis)
  case Nil
  then show ?case by simp
next
  case (Cons d ds)
  let ?n = "step_to c d"
  from Cons.prems(1) have adj: "adjacent c ?n"
    by (simp add: adjacent_step)
  from Cons.prems(2) have q: "c = last (robot_pos s # pth)" "connected (robot_pos s # pth)"
    "robot_pos s \<notin> set pth" "list_all (passable s) pth"
    "list_all (\<lambda>q. q \<notin> unvisited_cells s) pth"
    by (simp_all add: queued_def)
  from q(1,2) adj have conn: "connected (robot_pos s # pth @ [?n])"
    using connected_snoc[of "robot_pos s # pth" ?n] by simp
  show ?case
  proof (cases "passable s ?n \<and> ?n \<notin> vis")
    case False
    with Cons.prems have "expand s c pth ds opn vis = (r, opn', vis')"
      by (auto simp: Let_def)
    with Cons.IH[of opn vis] Cons.prems show ?thesis
      by simp
  next
    case True
    with Cons.prems(4) have ne: "?n \<noteq> robot_pos s"
      by auto
    show ?thesis
    proof (cases "?n \<in> unvisited_cells s")
      case found: True
      with True Cons.prems(5) have r: "r = Some (pth @ [?n])" "opn' = opn" "vis' = vis"
        by (auto simp: Let_def)
      have "frontier_path s (pth @ [?n])"
        using conn q ne True found by (simp add: frontier_path_def)
      with r Cons.prems show ?thesis
        by simp
    next
      case False
      let ?e = "(int (length (pth @ [?n])) - unexplored_neighbors s ?n, ?n, pth @ [?n])"
      from False True Cons.prems(5) have
        ex: "expand s c pth ds (heappush opn ?e) (insert ?n vis) = (r, opn', vis')"
        by (simp add: Let_def)
      have "queued s ?e"
        using conn q ne True False by (simp add: queued_def)
      with Cons.prems(3) have "list_all (queued s) (heappush opn ?e)"
        by (simp add: heappush_def)
      with Cons.IH[OF _ Cons.prems(2) _ _ ex] Cons.prems show ?thesis
        by simp
    qed
  qed
qed

lemma heappop_all:
  assumes "heappop e es = (m, rest)" and "list_all P (e # es)"
  shows "P m" and "list_all P rest"
  using heappop_set[OF assms(1)] assms(2)
  by (auto simp: list_all_iff simp del: set_simps)

lemma frontier_loop_path:
  "robot_pos s \<in> vis \<Longrightarrow> list_all (queued s) opn \<Longrightarrow> frontier_loop s opn vis = Some p
     \<Longrightarrow> frontier_path s p"
proof (induction s opn vis rule: frontier_loop.induct)
  case (1 s visited)
  then show ?case by simp
next
  case (2 s e es visited)
  obtain m rest where pop: "heappop e es = (m, rest)"
    by (cases "heappop e es")
  obtain r opn' vis' where
    ex: "expand s (fst (snd m)) (snd (snd m)) directions rest visited = (r, opn', vis')"
    by (cases "expand s (fst (snd m)) (snd (snd m)) directions rest visited")
  from heappop_all[OF pop "2.prems"(2)] have qm: "queued s m" and qr: "list_all (queued s) rest"
    by simp_all
  from qm have "queued s (fst m, fst (snd m), snd (snd m))"
    by simp
  from expand_queued[OF _ this qr "2.prems"(1) ex]
  have inv: "robot_pos s \<in> vis'" "list_all (queued s) opn'"
    "case r of None \<Rightarrow> True | Some p \<Rightarrow> frontier_path s p"
    by simp_all
  show ?case
  proof (cases r)
    case None
    with "2.prems"(3) pop ex have "frontier_loop s opn' vis' = Some p"
      by simp
    with "2.IH"[OF pop[symmetric] _ _ _ inv(1,2)] ex None show ?thesis
      by simp
  next
    case (Some p')
    with "2.prems"(3) pop ex have "p' = p"
      by simp
    with inv(3) Some show ?thesis
      by simp
  qed
qed

text \<open>
  Claim C3. A path returned by \<open>find_most_efficient_path\<close> of demo.py is not empty;
  from the robot's cell on, each cell is a 4-connected neighbour of the one before; the
  robot's cell is not on it; every cell is in bounds and neither OBSTACLE nor
  DYNAMIC\_OBSTACLE; its last cell is in \<open>unvisited_cells\<close> and no earlier one is. When
  (2,2) is the only unvisited cell, the path ends there.
\<close>

theorem frontier_path_found:
  assumes "find_most_efficient_path s = Some p"
  shows "p \<noteq> [] \<and> connected (robot_pos s # p) \<and> robot_pos s \<notin> set p
       \<and> list_all (passable s) p
       \<and> last p \<in> unvisited_cells s
       \<and> list_all (\<lambda>q. q \<notin> unvisited_cells s) (butlast p)
       \<and> (unvisited_cells s = {(2, 2)} \<longrightarrow> last p = (2, 2))"
proof -
  have "list_all (queued s) (heappush [] (0, robot_pos s, []))"
    by (simp add: heappush_def queued_def)
  with assms have "frontier_path s p"
    unfolding find_most_efficient_path_def
    by (intro frontier_loop_path[where vis = "{robot_pos s}"]) simp_all
  then show ?thesis
    by (auto simp: frontier_path_def)
qed

theorem frontier_path_found_witness:
  "find_most_efficient_path last_cell_3x3 = Some [(0, 1), (0, 2), (1, 2), (2, 2)]
   \<and> connected (robot_pos last_cell_3x3 # [(0, 1), (0, 2), (1, 2), (2, 2)])
   \<and> list_all (passable last_cell_3x3) [(0, 1), (0, 2), (1, 2), (2, 2)]
   \<and> last [(0, 1), (0, 2), (1, 2), (2, 2)] \<in> unvisited_cells last_cell_3x3"
proof -
  have f: "find_most_efficient_path last_cell_3x3 = Some [(0, 1), (0, 2), (1, 2), (2, 2)]"
    by code_simp
  from frontier_path_found[OF f] f show ?thesis
    by simp
qed

section \<open>The path A* returns\<close>

lemma relax_queued:
  assumes "set ds \<subseteq> set directions"
    and "astar_queued s start (f, c, pth)"
    and "list_all (astar_queued s start) opn"
    and "relax s t c pth ds opn g = Inr (opn', g')"
  shows "list_all (astar_queued s start) opn'"
  using assms
proof (induction ds arbitrary: opn g)
  case Nil
  then show ?case by simp
next
  case (Cons d ds)
  let ?n = "step_to c d"
  from Cons.prems(1) have adj: "adjacent c ?n"
    by (simp add: adjacent_step)
  from Cons.prems(2) have q: "hd (pth @ [c]) = start" "connected (pth @ [c])"
    "list_all (passable s) (tl (pth @ [c]))"
    by (simp_all add: astar_queued_def)
  show ?case
  proof (cases "passable s ?n")
    case False
    with Cons.prems Cons.IH[of opn g] show ?thesis
      by (simp add: Let_def)
  next
    case True
    with Cons.prems(4) obtain gc where gc: "g c = Some gc"
      by (auto simp: Let_def split: option.splits)
    show ?thesis
    proof (cases "case g ?n of None \<Rightarrow> True | Some gn \<Rightarrow> gc + 1 < gn")
      case False
      with True gc Cons.prems Cons.IH[of opn g] show ?thesis
        by (simp add: Let_def)
    next
      case push: True
      let ?e = "(gc + 1 + \<bar>fst ?n - fst t\<bar> + \<bar>snd ?n - snd t\<bar>, ?n, pth @ [c])"
      from push True gc Cons.prems(4) have
        rl: "relax s t c pth ds (heappush opn ?e) (g(?n \<mapsto> gc + 1)) = Inr (opn', g')"
        by (simp add: Let_def)
      have "connected ((pth @ [c]) @ [?n])"
        using q(2) adj connected_snoc[of "pth @ [c]" ?n] by simp
      moreover have "hd ((pth @ [c]) @ [?n]) = start"
        using q(1) by (cases pth) simp_all
      moreover have "list_all (passable s) (tl ((pth @ [c]) @ [?n]))"
        using q(3) True by (cases pth) simp_all
      ultimately have "astar_queued s start ?e"
        by (simp add: astar_queued_def)
      with Cons.prems(3) have "list_all (astar_queued s start) (heappush opn ?e)"
        by (simp add: heappush_def)
      from Cons.IH[OF _ Cons.prems(2) this rl] Cons.prems(1) show ?thesis
        by simp
    qed
  qed
qed

lemma astar_loop_path:
  "list_all (astar_queued s start) opn \<Longrightarrow> astar_loop s t opn g vis = Inr (Some p)
     \<Longrightarrow> p \<noteq> [] \<and> hd p = start \<and> last p = t \<and> connected p \<and> list_all (passable s) (tl p)"
proof (induction s t opn g vis rule: astar_loop.induct)
  case (1 s target g_score visited)
  then show ?case by simp
next
  case (2 s target e es g visited)
  obtain m rest where pop: "heappop e es = (m, rest)"
    by (cases "heappop e es")
  from heappop_all[OF pop "2.prems"(1)]
  have qm: "astar_queued s start m" and qr: "list_all (astar_queued s start) rest"
    by simp_all
  let ?c = "fst (snd m)" and ?pth = "snd (snd m)"
  show ?case
  proof (cases "?c = target")
    case True
    with "2.prems"(2) pop have "p = ?pth @ [?c]"
      by (simp add: Let_def)
    with qm True show ?thesis
      by (simp add: astar_queued_def)
  next
    case False
    show ?thesis
    proof (cases "?c \<in> visited")
      case True
      with False "2.prems"(2) pop have "astar_loop s target rest g visited = Inr (Some p)"
        by (simp add: Let_def)
      with "2.IH"(1)[OF pop[symmetric] refl refl False True qr] show ?thesis
        by simp
    next
      case nv: False
      with False "2.prems"(2) pop obtain opn' g' where
        rl: "relax s target ?c ?pth directions rest g = Inr (opn', g')"
        and lp: "astar_loop s target opn' g' (insert ?c visited) = Inr (Some p)"
        by (auto simp: Let_def split: sum.splits)
      from qm have "astar_queued s start (fst m, ?c, ?pth)"
        by simp
      from relax_queued[OF _ this qr rl] have "list_all (astar_queued s start) opn'"
        by simp
      with "2.IH"(2)[OF pop[symmetric] refl refl False nv rl refl this lp] show ?thesis
        by simp
    qed
  qed
qed

text \<open>
  Claim C2 as stated fails: the path A* returns begins with the start cell. On the open
  5x5 grid the path from (0,0) to (4,4) is a list of nine cells, (0,0) the first.
\<close>

theorem astar_path_includes_start:
  "init_session 0 5 5 [] [] = Inr open_5x5
   \<and> astar_pathfinding open_5x5 (0, 0) (4, 4)
       = Inr (Some [(0, 0), (0, 1), (0, 2), (0, 3), (0, 4), (1, 4), (2, 4), (3, 4), (4, 4)])
   \<and> length ([(0, 0), (0, 1), (0, 2), (0, 3), (0, 4), (1, 4), (2, 4), (3, 4), (4, 4)] :: path)
       = (9::nat)"
proof -
  have a: "init_session 0 5 5 [] [] = Inr open_5x5"
    by code_simp
  have b: "astar_pathfinding open_5x5 (0, 0) (4, 4)
       = Inr (Some [(0, 0), (0, 1), (0, 2), (0, 3), (0, 4), (1, 4), (2, 4), (3, 4), (4, 4)])"
    by code_simp
  from a b show ?thesis
    by simp
qed

text \<open>
  Claim C2, amended. A path returned by \<open>astar_pathfinding\<close> begins with the start cell
  and ends with the target; each cell is a 4-connected neighbour of the one before; every
  cell after the first is in bounds and neither OBSTACLE nor DYNAMIC\_OBSTACLE. (On the
  open 5x5 grid the path from (0,0) to (4,4) has nine cells, so eight steps.)
\<close>

theorem astar_path_found:
  assumes "astar_pathfinding s start target = Inr (Some p)"
  shows "p \<noteq> [] \<and> hd p = start \<and> last p = target \<and> connected p
       \<and> list_all (passable s) (tl p)"
proof -
  have "list_all (astar_queued s start) (heappush [] (0, start, []))"
    by (simp add: heappush_def astar_queued_def)
  with assms show ?thesis
    unfolding astar_pathfinding_def
    by (intro astar_loop_path) simp_all
qed

theorem astar_path_found_witness:
  "astar_pathfinding open_5x5 (0, 0) (4, 4)
     = Inr (Some [(0, 0), (0, 1), (0, 2), (0, 3), (0, 4), (1, 4), (2, 4), (3, 4), (4, 4)])
   \<and> connected [(0, 0), (0, 1), (0, 2), (0, 3), (0, 4), (1, 4), (2, 4), (3, 4), (4, 4)]
   \<and> list_all (passable open_5x5) [(0, 1), (0, 2), (0, 3), (0, 4), (1, 4), (2, 4), (3, 4), (4, 4)]
   \<and> length (tl ([(0, 0), (0, 1), (0, 2), (0, 3), (0, 4), (1, 4), (2, 4), (3, 4), (4, 4)] :: path))
       = (8::nat)"
proof -
  have f: "astar_pathfinding open_5x5 (0, 0) (4, 4)
     = Inr (Some [(0, 0), (0, 1), (0, 2), (0, 3), (0, 4), (1, 4), (2, 4), (3, 4), (4, 4)])"
    by code_simp
  from astar_path_found[OF f] f show ?thesis
    by simp
qed

section \<open>A path blocked by a dynamic obstacle (h13.py)\<close>

lemma grid_get_in_bounds:
  assumes "grid_shape (width s) (height s) (grid s)" and "in_bounds s p"
  shows "grid_get (grid s) p = Inr (cell_at (grid s) p)"
proof -
  from assms have y: "py_index (snd p) (length (grid s)) = Inr (nat (snd p))"
    by (auto simp: py_index_def grid_shape_def in_bounds_def)
  from assms have "nat (snd p) < nat (height s)"
    by (auto simp: in_bounds_def)
  with assms(1) have "length (grid s ! nat (snd p)) = nat (width s)"
    by (rule grid_shape_row)
  with assms(2) have "py_index (fst p) (length (grid s ! nat (snd p))) = Inr (nat (fst p))"
    by (auto simp: py_index_def in_bounds_def)
  with y show ?thesis
    by (simp add: grid_get_def cell_at_def)
qed

lemma path_blocked_in_bounds:
  assumes "grid_shape (width s) (height s) (grid s)" and "list_all (in_bounds s) p"
  shows "path_blocked (grid s) p = Inr (list_ex (\<lambda>c. cell_at (grid s) c = DYNAMIC_OBSTACLE) p)"
  using assms(2)
  by (induction p) (simp_all add: grid_get_in_bounds[OF assms(1)])

lemma h1_path_in_bounds:
  assumes "in_bounds s (robot_pos s)" and "h1_find_most_efficient_path s = Inr (Some p)"
  shows "p \<noteq> [] \<and> list_all (in_bounds s) p"
proof (cases "card (unvisited_cells s) = 1")
  case True
  let ?t = "the_elem (unvisited_cells s)"
  from True assms(2) have a: "astar_pathfinding s (robot_pos s) ?t = Inr (Some p)"
    by (simp add: h1_find_most_efficient_path_def)
  have "list_all (astar_queued s (robot_pos s)) (heappush [] (0, robot_pos s, []))"
    by (simp add: heappush_def astar_queued_def)
  with a have r: "p \<noteq> [] \<and> hd p = robot_pos s \<and> last p = ?t \<and> connected p
      \<and> list_all (passable s) (tl p)"
    unfolding astar_pathfinding_def by (intro astar_loop_path) simp_all
  then obtain c cs where p: "p = c # cs"
    by (cases p) auto
  with r assms(1) show ?thesis
    by (auto simp: list_all_iff passable_def)
next
  case False
  with assms(2) have "frontier_loop s (heappush [] (0, robot_pos s, [])) {robot_pos s} = Some p"
    by (simp add: h1_find_most_efficient_path_def h1_frontier_loop_eq)
  moreover have "list_all (queued s) (heappush [] (0, robot_pos s, []))"
    by (simp add: heappush_def queued_def)
  ultimately have "frontier_path s p"
    by (intro frontier_loop_path[where vis = "{robot_pos s}"]) simp_all
  then show ?thesis
    by (auto simp: frontier_path_def list_all_iff passable_def)
qed

text \<open>
  Claim C4. In a session whose grid has \<open>height\<close> rows of \<open>width\<close> cells and whose
  robot is in bounds, when the planner returns a path and a cell of the path is marked
  DYNAMIC\_OBSTACLE, the robot's turn of h13.py raises nothing and leaves the whole
  session as it was (robot position, grid and both cell sets), with the outcome
  \<open>Waiting\<close>; the next turn plans again from that same session.
\<close>

theorem blocked_path_waits:
  assumes "grid_shape (width s) (height s) (grid s)"
    and "in_bounds s (robot_pos s)"
    and "h1_find_most_efficient_path s = Inr (Some p)"
    and "list_ex (\<lambda>c. grid_get (grid s) c = Inr DYNAMIC_OBSTACLE) p"
  shows "h13_robot_turn s = Inr (Waiting, s)"
proof -
  from h1_path_in_bounds[OF assms(2,3)] have p: "p \<noteq> []" "list_all (in_bounds s) p"
    by simp_all
  from assms(4) p(2) have "list_ex (\<lambda>c. cell_at (grid s) c = DYNAMIC_OBSTACLE) p"
    by (auto simp: list_ex_iff list_all_iff grid_get_in_bounds[OF assms(1)])
  with path_blocked_in_bounds[OF assms(1) p(2)] have "path_blocked (grid s) p = Inr True"
    by simp
  with assms(3) p(1) show ?thesis
    by (simp add: h13_robot_turn_def)
qed

theorem blocked_path_waits_witness:
  "init_session 5 3 2 [] [(0, 0), (1, 0), (2, 0), (0, 1), (1, 1)] = Inr crowded_start
   \<and> h13_rounds (\<lambda>t i. t * 31 + i * 17) [0..<7] crowded_start = Inr crowded_late
   \<and> move_dynamic_obstacles (\<lambda>i. 7 * 31 + i * 17) crowded_late = Inr crowded_session
   \<and> h1_find_most_efficient_path crowded_session = Inr (Some [(2, 0), (1, 0)])
   \<and> grid_get (grid crowded_session) (2, 0) = Inr DYNAMIC_OBSTACLE
   \<and> h13_robot_turn crowded_session = Inr (Waiting, crowded_session)"
proof -
  have i: "init_session 5 3 2 [] [(0, 0), (1, 0), (2, 0), (0, 1), (1, 1)] = Inr crowded_start"
    by code_simp
  have r: "h13_rounds (\<lambda>t i. t * 31 + i * 17) [0..<7] crowded_start = Inr crowded_late"
    by code_simp
  have m: "move_dynamic_obstacles (\<lambda>i. 7 * 31 + i * 17) crowded_late = Inr crowded_session"
    by code_simp
  have a: "grid_shape (width crowded_session) (height crowded_session) (grid crowded_session)"
    by (simp add: crowded_session_def grid_shape_def)
  have b: "in_bounds crowded_session (robot_pos crowded_session)"
    by (simp add: crowded_session_def in_bounds_def)
  have c: "h1_find_most_efficient_path crowded_session = Inr (Some [(2, 0), (1, 0)])"
    by code_simp
  have d: "grid_get (grid crowded_session) (2, 0) = Inr DYNAMIC_OBSTACLE"
    by (simp add: crowded_session_def grid_get_def py_index_def)
  then have e: "list_ex (\<lambda>c. grid_get (grid crowded_session) c = Inr DYNAMIC_OBSTACLE)
                  [(2, 0), (1, 0)]"
    by simp
  from blocked_path_waits[OF a b c e] i r m c d show ?thesis
    by simp
qed

section \<open>Invariants of a session\<close>

subsection \<open>Reading and writing cells in bounds\<close>

lemma grid_set_in_bounds:
  assumes "grid_shape (width s) (height s) g" and "in_bounds s p"
  shows "grid_set g p v = Inr (set_cell g p v)"
proof -
  from assms have y: "py_index (snd p) (length g) = Inr (nat (snd p))"
    by (auto simp: py_index_def grid_shape_def in_bounds_def)
  from assms have "nat (snd p) < nat (height s)"
    by (auto simp: in_bounds_def)
  with assms(1) have "length (g ! nat (snd p)) = nat (width s)"
    by (rule grid_shape_row)
  with assms(2) have "py_index (fst p) (length (g ! nat (snd p))) = Inr (nat (fst p))"
    by (auto simp: py_index_def in_bounds_def)
  with y show ?thesis
    by (simp add: grid_set_def set_cell_def)
qed

lemma set_cell_shape:
  assumes "grid_shape w h g"
  shows "grid_shape w h (set_cell g p v)"
proof (cases "nat (snd p) < length g")
  case True
  with assms show ?thesis
    unfolding set_cell_def by (rule grid_shape_update)
next
  case False
  then have "set_cell g p v = g"
    by (simp add: set_cell_def list_update_beyond)
  with assms show ?thesis
    by simp
qed

lemma cell_at_set_cell:
  assumes "grid_shape (width s) (height s) g" and "in_bounds s p" and "in_bounds s q"
  shows "cell_at (set_cell g p v) q = (if q = p then v else cell_at g q)"
proof -
  let ?r = "(g ! nat (snd p))[nat (fst p) := v]"
  from assms have ly: "nat (snd p) < length g"
    by (auto simp: grid_shape_def in_bounds_def)
  with assms(1) have "length (g ! nat (snd p)) = nat (width s)"
    by (simp add: grid_shape_def list_all_length)
  with assms(2) have lx: "nat (fst p) < length (g ! nat (snd p))"
    by (simp add: in_bounds_def)
  from assms(2,3) have iy: "nat (snd q) = nat (snd p) \<longleftrightarrow> snd q = snd p"
    and ix: "nat (fst p) = nat (fst q) \<longleftrightarrow> fst q = fst p"
    by (auto simp: in_bounds_def eq_nat_nat_iff)
  show ?thesis
  proof (cases "snd q = snd p")
    case True
    then have "cell_at (set_cell g p v) q = ?r ! nat (fst q)"
      using ly by (simp add: cell_at_def set_cell_def)
    also have "\<dots> = (if fst q = fst p then v else g ! nat (snd p) ! nat (fst q))"
      using lx ix by (simp add: nth_list_update)
    also have "\<dots> = (if q = p then v else cell_at g q)"
      using True by (simp add: cell_at_def prod_eq_iff)
    finally show ?thesis .
  next
    case False
    with iy have "nat (snd p) \<noteq> nat (snd q)"
      by simp
    then have "cell_at (set_cell g p v) q = cell_at g q"
      by (simp add: cell_at_def set_cell_def)
    with False show ?thesis
      by (auto simp: prod_eq_iff)
  qed
qed

lemma grid_set_cell_cases:
  assumes "grid_set g p v = Inr g'"
  shows "cell_at g' q = cell_at g q \<or> cell_at g' q = v"
proof -
  from assms obtain j i where j: "py_index (snd p) (length g) = Inr j"
    and i: "py_index (fst p) (length (g ! j)) = Inr i"
    and g': "g' = g[j := (g ! j)[i := v]]"
    by (auto simp: grid_set_def split: sum.splits)
  from j have "j < length g"
    by (auto simp: py_index_def split: if_splits)
  moreover from i have "i < length (g ! j)"
    by (auto simp: py_index_def split: if_splits)
  ultimately show ?thesis
    unfolding g' by (auto simp: cell_at_def nth_list_update)
qed

lemma same_terrain_refl: "same_terrain s s"
  by (simp add: same_terrain_def)

lemma same_terrain_trans: "same_terrain a b \<Longrightarrow> same_terrain b c \<Longrightarrow> same_terrain a c"
  by (auto simp: same_terrain_def in_bounds_def)

lemma in_bounds_update [simp]:
  "in_bounds (s\<lparr>grid := g\<rparr>) p = in_bounds s p"
  "in_bounds (s\<lparr>dynamic_obstacles := ds\<rparr>) p = in_bounds s p"
  "in_bounds (s\<lparr>robot_pos := r\<rparr>) p = in_bounds s p"
  "in_bounds (s\<lparr>visited_cells := vs\<rparr>) p = in_bounds s p"
  "in_bounds (s\<lparr>unvisited_cells := us\<rparr>) p = in_bounds s p"
  by (simp_all add: in_bounds_def)

lemma same_terrain_in_bounds: "same_terrain s s' \<Longrightarrow> in_bounds s' p = in_bounds s p"
  by (simp add: same_terrain_def in_bounds_def)

lemma write_cell_inv:
  assumes inv: "session_inv s" and pin: "in_bounds s p"
    and old: "cell_at (grid s) p \<noteq> OBSTACLE" and new: "v \<noteq> OBSTACLE"
    and unv: "v = UNVISITED \<longrightarrow> p \<in> unvisited_cells s"
  shows "session_inv (s\<lparr>grid := set_cell (grid s) p v\<rparr>)"
    and "same_terrain s (s\<lparr>grid := set_cell (grid s) p v\<rparr>)"
proof -
  let ?g = "set_cell (grid s) p v"
  from inv have sh: "grid_shape (width s) (height s) (grid s)"
    by (simp add: session_inv_def)
  have c: "\<And>q. in_bounds s q \<Longrightarrow> cell_at ?g q = (if q = p then v else cell_at (grid s) q)"
    using sh pin by (rule cell_at_set_cell)
  have 1: "grid_shape (width s) (height s) ?g"
    using sh by (rule set_cell_shape)
  have 2: "in_bounds s (robot_pos s) \<and> cell_at ?g (robot_pos s) \<noteq> OBSTACLE"
    using inv new by (simp add: c session_inv_def)
  have 3: "list_all (\<lambda>d. in_bounds s d \<and> cell_at ?g d \<noteq> OBSTACLE) (dynamic_obstacles s)"
    using inv new by (simp add: session_inv_def list_all_iff c)
  have 4: "\<forall>q. in_bounds s q \<and> cell_at ?g q = UNVISITED \<longrightarrow> q \<in> unvisited_cells s"
  proof (intro allI impI)
    fix q assume q: "in_bounds s q \<and> cell_at ?g q = UNVISITED"
    show "q \<in> unvisited_cells s"
    proof (cases "q = p")
      case True
      with q unv c[OF pin] show ?thesis by simp
    next
      case False
      with q c[of q] have "cell_at (grid s) q = UNVISITED" by simp
      with q inv show ?thesis unfolding session_inv_def by blast
    qed
  qed
  from 1 2 3 4 show "session_inv (s\<lparr>grid := ?g\<rparr>)"
    by (simp add: session_inv_def)
  show "same_terrain s (s\<lparr>grid := ?g\<rparr>)"
    using old new by (simp add: same_terrain_def c)
qed

lemma find_admissible:
  "find (admissible s) qs = Some q \<Longrightarrow> admissible s q"
  by (auto simp: find_Some_iff)

lemma restored_cell_ok:
  "restored_cell s p \<noteq> OBSTACLE" "restored_cell s p = UNVISITED \<longrightarrow> p \<in> unvisited_cells s"
  by (simp_all add: restored_cell_def)

lemma dyn_update_inv:
  assumes "session_inv s" and "in_bounds s q" and "cell_at (grid s) q \<noteq> OBSTACLE"
  shows "session_inv (s\<lparr>dynamic_obstacles := (dynamic_obstacles s)[i := q]\<rparr>)"
proof -
  have "set ((dynamic_obstacles s)[i := q]) \<subseteq> insert q (set (dynamic_obstacles s))"
    by (rule set_update_subset_insert)
  with assms have "list_all (\<lambda>d. in_bounds s d \<and> cell_at (grid s) d \<noteq> OBSTACLE)
      ((dynamic_obstacles s)[i := q])"
    unfolding list_all_iff session_inv_def by blast
  with assms(1) show ?thesis
    by (simp add: session_inv_def)
qed

lemma move_obstacle_inv:
  assumes "session_inv s" and "i < length (dynamic_obstacles s)"
  shows "\<exists>s'. move_obstacle r i s = Inr s' \<and> session_inv s' \<and> same_terrain s s'
           \<and> robot_pos s' = robot_pos s \<and> visited_cells s' = visited_cells s
           \<and> unvisited_cells s' = unvisited_cells s
           \<and> length (dynamic_obstacles s') = length (dynamic_obstacles s)"
proof -
  define p where "p = dynamic_obstacles s ! i"
  define s1 where "s1 = s\<lparr>grid := set_cell (grid s) p (restored_cell s p)\<rparr>"
  from assms have sh: "grid_shape (width s) (height s) (grid s)"
    and pin: "in_bounds s p" and pob: "cell_at (grid s) p \<noteq> OBSTACLE"
    by (auto simp: session_inv_def list_all_length p_def)
  have gs: "grid_set (grid s) p (restored_cell s p) = Inr (grid s1)"
    using grid_set_in_bounds[OF sh pin] by (simp add: s1_def)
  have inv1: "session_inv s1" and t1: "same_terrain s s1"
    unfolding s1_def using write_cell_inv[OF assms(1) pin pob restored_cell_ok] by simp_all
  have f1: "robot_pos s1 = robot_pos s" "visited_cells s1 = visited_cells s"
    "unvisited_cells s1 = unvisited_cells s" "dynamic_obstacles s1 = dynamic_obstacles s"
    "s\<lparr>grid := grid s1\<rparr> = s1"
    by (simp_all add: s1_def)
  show ?thesis
  proof (cases "find (admissible s1) (map (step_to p) (shuffle r directions))")
    case None
    with gs have "move_obstacle r i s = Inr s1"
      by (simp add: move_obstacle_def Let_def p_def[symmetric] f1)
    with inv1 t1 f1 show ?thesis
      by simp
  next
    case (Some q)
    define s2 where "s2 = s1\<lparr>grid := set_cell (grid s1) q DYNAMIC_OBSTACLE\<rparr>"
    define s3 where "s3 = s2\<lparr>dynamic_obstacles := (dynamic_obstacles s2)[i := q]\<rparr>"
    have s3: "s3 = s1\<lparr>dynamic_obstacles := (dynamic_obstacles s1)[i := q],
                        grid := set_cell (grid s1) q DYNAMIC_OBSTACLE\<rparr>"
      by (simp add: s3_def s2_def)
    from Some gs have mv: "move_obstacle r i s = Inr s3"
      by (simp add: move_obstacle_def Let_def p_def[symmetric] f1 s3)
    from Some have adm: "admissible s1 q"
      by (rule find_admissible)
    then have qin: "in_bounds s1 q" and qc: "cell_at (grid s1) q \<noteq> OBSTACLE"
      by (auto simp: admissible_def)
    have inv2: "session_inv s2" and t2: "same_terrain s1 s2"
      unfolding s2_def using write_cell_inv[OF inv1 qin qc, of DYNAMIC_OBSTACLE] by simp_all
    have "grid_shape (width s1) (height s1) (grid s1)"
      using inv1 by (simp add: session_inv_def)
    from cell_at_set_cell[OF this qin qin, of DYNAMIC_OBSTACLE]
    have qd: "cell_at (grid s2) q \<noteq> OBSTACLE"
      by (simp add: s2_def)
    have qin2: "in_bounds s2 q"
      using qin by (simp add: s2_def)
    have inv3: "session_inv s3"
      unfolding s3_def using inv2 qin2 qd by (rule dyn_update_inv)
    have "same_terrain s2 s3"
      by (simp add: same_terrain_def s3_def)
    with t1 t2 have t3: "same_terrain s s3"
      by (blast intro: same_terrain_trans)
    have "robot_pos s3 = robot_pos s" "visited_cells s3 = visited_cells s"
      "unvisited_cells s3 = unvisited_cells s"
      "length (dynamic_obstacles s3) = length (dynamic_obstacles s)"
      by (simp_all add: s3_def s2_def f1)
    with inv3 t3 mv show ?thesis
      by simp
  qed
qed

subsection \<open>The steps keep the invariant\<close>

lemma kept_refl: "kept s s"
  by (simp add: kept_def same_terrain_refl)

lemma kept_trans: "kept a b \<Longrightarrow> kept b c \<Longrightarrow> kept a c"
  unfolding kept_def by (metis same_terrain_trans)

lemma same_terrainD:
  "same_terrain s s' \<Longrightarrow> in_bounds s p
     \<Longrightarrow> (cell_at (grid s') p = OBSTACLE) = (cell_at (grid s) p = OBSTACLE)"
  unfolding same_terrain_def by blast

lemma move_loop_inv:
  assumes "session_inv s" and "\<forall>i\<in>set js. i < length (dynamic_obstacles s)"
  shows "\<exists>s'. move_loop rs js s = Inr s' \<and> session_inv s' \<and> kept s s'"
  using assms
proof (induction js arbitrary: s)
  case Nil
  then show ?case by (simp add: kept_refl)
next
  case (Cons j js)
  from Cons.prems have "j < length (dynamic_obstacles s)"
    by simp
  from move_obstacle_inv[OF Cons.prems(1) this, of "rs j"] obtain s1 where
    s1: "move_obstacle (rs j) j s = Inr s1" "session_inv s1" "kept s s1"
    by (auto simp: kept_def)
  with Cons.prems(2) have "\<forall>i\<in>set js. i < length (dynamic_obstacles s1)"
    by (simp add: kept_def)
  from Cons.IH[OF s1(2) this] obtain s' where
    s': "move_loop rs js s1 = Inr s'" "session_inv s'" "kept s1 s'"
    by auto
  from s1(3) s'(3) have "kept s s'"
    by (rule kept_trans)
  with s1(1) s'(1,2) show ?case
    by simp
qed

lemma move_dynamic_obstacles_inv:
  assumes "session_inv s"
  shows "\<exists>s'. move_dynamic_obstacles rs s = Inr s' \<and> session_inv s' \<and> kept s s'"
  unfolding move_dynamic_obstacles_def
  using assms by (intro move_loop_inv) simp_all

lemma retrace_inv:
  assumes "session_inv s" and "list_all (in_bounds s) ps"
  shows "\<exists>g. retrace (grid s) ps = Inr g \<and> session_inv (s\<lparr>grid := g\<rparr>)
           \<and> same_terrain s (s\<lparr>grid := g\<rparr>)
           \<and> (\<forall>q. in_bounds s q \<longrightarrow> cell_at g q = cell_at (grid s) q \<or> cell_at g q = RETRACED_PATH)"
  using assms
proof (induction ps arbitrary: s)
  case Nil
  then show ?case by (simp add: same_terrain_refl)
next
  case (Cons p ps)
  from Cons.prems have sh: "grid_shape (width s) (height s) (grid s)" and pin: "in_bounds s p"
    by (simp_all add: session_inv_def)
  have rd: "grid_get (grid s) p = Inr (cell_at (grid s) p)"
    using sh pin by (rule grid_get_in_bounds)
  show ?case
  proof (cases "cell_at (grid s) p = VISITED")
    case False
    with rd have "retrace (grid s) (p # ps) = retrace (grid s) ps"
      by simp
    with Cons.IH[OF Cons.prems(1)] Cons.prems(2) show ?thesis
      by simp
  next
    case True
    define s1 where "s1 = s\<lparr>grid := set_cell (grid s) p RETRACED_PATH\<rparr>"
    have wr: "grid_set (grid s) p RETRACED_PATH = Inr (grid s1)"
      using grid_set_in_bounds[OF sh pin] by (simp add: s1_def)
    from True have "cell_at (grid s) p \<noteq> OBSTACLE"
      by simp
    from write_cell_inv[OF Cons.prems(1) pin this, of RETRACED_PATH]
    have inv1: "session_inv s1" and t1: "same_terrain s s1"
      by (simp_all add: s1_def)
    have c1: "\<And>q. in_bounds s q \<Longrightarrow>
        cell_at (grid s1) q = (if q = p then RETRACED_PATH else cell_at (grid s) q)"
      using cell_at_set_cell[OF sh pin] by (simp add: s1_def)
    from Cons.prems(2) have "list_all (in_bounds s1) ps"
      by (simp add: s1_def list_all_iff)
    from Cons.IH[OF inv1 this] obtain g where
      g: "retrace (grid s1) ps = Inr g" "session_inv (s1\<lparr>grid := g\<rparr>)"
        "same_terrain s1 (s1\<lparr>grid := g\<rparr>)"
        "\<forall>q. in_bounds s1 q \<longrightarrow> cell_at g q = cell_at (grid s1) q \<or> cell_at g q = RETRACED_PATH"
      by auto
    have eq: "s1\<lparr>grid := g\<rparr> = s\<lparr>grid := g\<rparr>"
      by (simp add: s1_def)
    from rd True wr g(1) have "retrace (grid s) (p # ps) = Inr g"
      by simp
    moreover from g(2) eq have "session_inv (s\<lparr>grid := g\<rparr>)"
      by simp
    moreover from t1 g(3) eq have "same_terrain s (s\<lparr>grid := g\<rparr>)"
      by (metis same_terrain_trans)
    moreover have "\<forall>q. in_bounds s q \<longrightarrow> cell_at g q = cell_at (grid s) q \<or> cell_at g q = RETRACED_PATH"
    proof (intro allI impI)
      fix q assume q: "in_bounds s q"
      then have "in_bounds s1 q"
        by (simp add: s1_def)
      with g(4) have "cell_at g q = cell_at (grid s1) q \<or> cell_at g q = RETRACED_PATH"
        by blast
      with c1[OF q] show "cell_at g q = cell_at (grid s) q \<or> cell_at g q = RETRACED_PATH"
        by (cases "q = p") auto
    qed
    ultimately show ?thesis
      by blast
  qed
qed

lemma arrive_inv:
  assumes "session_inv s" and "in_bounds s t" and "cell_at (grid s) t \<noteq> UNVISITED"
    and "cell_at (grid s) t \<noteq> OBSTACLE"
  shows "session_inv (s\<lparr>robot_pos := t, unvisited_cells := unvisited_cells s - {t},
                          visited_cells := insert t (visited_cells s)\<rparr>)"
proof -
  have "\<forall>p. in_bounds s p \<and> cell_at (grid s) p = UNVISITED \<longrightarrow> p \<in> unvisited_cells s - {t}"
    using assms(1,3) unfolding session_inv_def by blast
  with assms show ?thesis
    by (simp add: session_inv_def)
qed

lemma move_robot_inv:
  assumes "session_inv s" and "frontier_path s p"
  shows "\<exists>s'. move_robot s p = Inr (True, s') \<and> session_inv s' \<and> same_terrain s s'
           \<and> visited_cells s' = insert (last p) (visited_cells s)
           \<and> unvisited_cells s' = unvisited_cells s - {last p}
           \<and> dynamic_obstacles s' = dynamic_obstacles s"
proof -
  define t where "t = last p"
  from assms(2) have ne: "p \<noteq> []" and pass: "list_all (passable s) p"
    by (simp_all add: frontier_path_def)
  then have tp: "passable s t"
    by (simp add: t_def list_all_iff)
  then have tin: "in_bounds s t" and tc: "cell_at (grid s) t \<noteq> OBSTACLE"
    "cell_at (grid s) t \<noteq> DYNAMIC_OBSTACLE"
    by (simp_all add: passable_def)
  from pass have "list_all (in_bounds s) (butlast p)"
    by (auto simp: list_all_iff passable_def dest: in_set_butlastD)
  from retrace_inv[OF assms(1) this] obtain g1 where
    g1: "retrace (grid s) (butlast p) = Inr g1" "session_inv (s\<lparr>grid := g1\<rparr>)"
      "same_terrain s (s\<lparr>grid := g1\<rparr>)"
      "\<forall>q. in_bounds s q \<longrightarrow> cell_at g1 q = cell_at (grid s) q \<or> cell_at g1 q = RETRACED_PATH"
    by auto
  define s1 where "s1 = s\<lparr>grid := g1\<rparr>"
  from g1 have inv1: "session_inv s1" and t1: "same_terrain s s1"
    by (simp_all add: s1_def)
  from g1(4)[rule_format, OF tin] tc have c1: "cell_at g1 t \<noteq> DYNAMIC_OBSTACLE"
    by auto
  have sh1: "grid_shape (width s1) (height s1) (grid s1)"
    using inv1 by (simp add: session_inv_def)
  have tin1: "in_bounds s1 t"
    using tin by (simp add: s1_def)
  have rd: "grid_get g1 t = Inr (cell_at g1 t)"
    using grid_get_in_bounds[OF sh1 tin1] by (simp add: s1_def)
  from inv1 have rin: "in_bounds s1 (robot_pos s1)" and rc: "cell_at (grid s1) (robot_pos s1) \<noteq> OBSTACLE"
    by (simp_all add: session_inv_def)
  define s2 where "s2 = s1\<lparr>grid := set_cell (grid s1) (robot_pos s1) VISITED\<rparr>"
  from write_cell_inv[OF inv1 rin rc, of VISITED]
  have inv2: "session_inv s2" and t2: "same_terrain s1 s2"
    by (simp_all add: s2_def)
  have w2: "grid_set g1 (robot_pos s) VISITED = Inr (grid s2)"
    using grid_set_in_bounds[OF sh1 rin] by (simp add: s2_def s1_def)
  have sh2: "grid_shape (width s2) (height s2) (grid s2)"
    using inv2 by (simp add: session_inv_def)
  have tin2: "in_bounds s2 t"
    using tin1 by (simp add: s2_def)
  from t1 t2 have t02: "same_terrain s s2"
    by (rule same_terrain_trans)
  from same_terrainD[OF this tin] tc(1) have tc2: "cell_at (grid s2) t \<noteq> OBSTACLE"
    by simp
  define s3 where "s3 = s2\<lparr>grid := set_cell (grid s2) t ROBOT\<rparr>"
  from write_cell_inv[OF inv2 tin2 tc2, of ROBOT]
  have inv3: "session_inv s3" and t3: "same_terrain s2 s3"
    by (simp_all add: s3_def)
  have w3: "grid_set (grid s2) t ROBOT = Inr (grid s3)"
    using grid_set_in_bounds[OF sh2 tin2] by (simp add: s3_def)
  have c3: "cell_at (grid s3) t = ROBOT"
    using cell_at_set_cell[OF sh2 tin2 tin2, of ROBOT] by (simp add: s3_def)
  have tin3: "in_bounds s3 t"
    using tin2 by (simp add: s3_def)
  define s4 where "s4 = s3\<lparr>robot_pos := t, unvisited_cells := unvisited_cells s3 - {t},
                            visited_cells := insert t (visited_cells s3)\<rparr>"
  have inv4: "session_inv s4"
    unfolding s4_def using inv3 tin3 c3 by (intro arrive_inv) simp_all
  have "same_terrain s3 s4"
    by (simp add: s4_def same_terrain_def)
  with t02 t3 have t4: "same_terrain s s4"
    by (blast intro: same_terrain_trans)
  have s4: "s4 = s\<lparr>grid := grid s3, robot_pos := t,
                    unvisited_cells := unvisited_cells s - {t},
                    visited_cells := insert t (visited_cells s)\<rparr>"
    by (simp add: s4_def s3_def s2_def s1_def)
  have "move_robot s p = Inr (True, s4)"
    using ne g1(1) rd c1 w2 w3 by (simp add: move_robot_def t_def[symmetric] s4)
  moreover have "visited_cells s4 = insert t (visited_cells s)"
    "unvisited_cells s4 = unvisited_cells s - {t}" "dynamic_obstacles s4 = dynamic_obstacles s"
    by (simp_all add: s4)
  ultimately show ?thesis
    using inv4 t4 by (simp add: t_def)
qed

subsection \<open>The constructor establishes the invariant\<close>

lemma in_bounds_size:
  "width s' = width s \<Longrightarrow> height s' = height s \<Longrightarrow> in_bounds s' p = in_bounds s p"
  by (simp add: in_bounds_def)

lemma fresh_unvisited:
  "unvisited_cells (fresh_session w h) = {p. in_bounds (fresh_session w h) p} - {(0, 0)}"
  by (auto simp: fresh_session_def in_bounds_def)

lemma fresh_cells:
  assumes "in_bounds (fresh_session w h) p"
  shows "cell_at (grid (fresh_session w h)) p = UNVISITED"
  using assms by (simp add: fresh_session_def in_bounds_def cell_at_def)

lemma fresh_building: "building (fresh_session w h)"
proof -
  let ?s = "fresh_session w h"
  have 1: "grid_shape (width ?s) (height ?s) (grid ?s)"
    using fresh_shape[of w h] by (simp add: fresh_session_def)
  have 2: "robot_pos ?s = (0, 0)" "dynamic_obstacles ?s = []"
    by (simp_all add: fresh_session_def)
  have 3: "\<forall>p. in_bounds ?s p \<and> cell_at (grid ?s) p = UNVISITED \<and> p \<noteq> (0, 0)
             \<longrightarrow> p \<in> unvisited_cells ?s"
    unfolding fresh_unvisited by blast
  from 1 2 3 show ?thesis
    unfolding building_def by simp
qed

lemma write_cell_building:
  assumes b: "building s" and pin: "in_bounds s p"
    and old: "cell_at (grid s) p \<noteq> OBSTACLE" and new: "v \<noteq> OBSTACLE" "v \<noteq> UNVISITED"
  shows "building (s\<lparr>grid := set_cell (grid s) p v\<rparr>)"
    and "same_terrain s (s\<lparr>grid := set_cell (grid s) p v\<rparr>)"
proof -
  let ?g = "set_cell (grid s) p v"
  from b have sh: "grid_shape (width s) (height s) (grid s)"
    by (simp add: building_def)
  have c: "\<And>q. in_bounds s q \<Longrightarrow> cell_at ?g q = (if q = p then v else cell_at (grid s) q)"
    using sh pin by (rule cell_at_set_cell)
  have 1: "grid_shape (width s) (height s) ?g"
    using sh by (rule set_cell_shape)
  have 3: "list_all (\<lambda>d. in_bounds s d \<and> cell_at ?g d \<noteq> OBSTACLE) (dynamic_obstacles s)"
    using b new by (simp add: building_def list_all_iff c)
  have 4: "\<forall>q. in_bounds s q \<and> cell_at ?g q = UNVISITED \<and> q \<noteq> (0, 0) \<longrightarrow> q \<in> unvisited_cells s"
  proof (intro allI impI)
    fix q assume q: "in_bounds s q \<and> cell_at ?g q = UNVISITED \<and> q \<noteq> (0, 0)"
    with c[of q] new have "cell_at (grid s) q = UNVISITED"
      by (cases "q = p") simp_all
    with q b show "q \<in> unvisited_cells s"
      unfolding building_def by blast
  qed
  from b 1 3 4 show "building (s\<lparr>grid := ?g\<rparr>)"
    by (simp add: building_def)
  show "same_terrain s (s\<lparr>grid := ?g\<rparr>)"
    using old new by (simp add: same_terrain_def c)
qed

lemma place_static_building:
  assumes "building s" and "dynamic_obstacles s = []" and "place_static s obs = Inr s'"
  shows "building s' \<and> dynamic_obstacles s' = [] \<and> width s' = width s \<and> height s' = height s
       \<and> visited_cells s' = visited_cells s"
  using assms
proof (induction obs arbitrary: s)
  case Nil
  then show ?case by simp
next
  case (Cons p ps)
  from Cons.prems(3) obtain g where g: "grid_set (grid s) p OBSTACLE = Inr g"
    by (auto split: sum.splits)
  define s1 where "s1 = s\<lparr>grid := g, unvisited_cells := unvisited_cells s - {p}\<rparr>"
  from Cons.prems(3) g have rest: "place_static s1 ps = Inr s'"
    by (simp add: s1_def)
  from Cons.prems(1) have sh: "grid_shape (width s) (height s) (grid s)"
    by (simp add: building_def)
  have sh1: "grid_shape (width s) (height s) g"
    using sh g by (rule grid_set_shape)
  have j: "\<forall>q. in_bounds s q \<and> cell_at g q = UNVISITED \<and> q \<noteq> (0, 0)
             \<longrightarrow> q \<in> unvisited_cells s - {p}"
  proof (intro allI impI)
    fix q assume q: "in_bounds s q \<and> cell_at g q = UNVISITED \<and> q \<noteq> (0, 0)"
    with grid_set_cell_cases[OF g, of q] have "cell_at (grid s) q = UNVISITED"
      by auto
    with q Cons.prems(1) have "q \<in> unvisited_cells s"
      unfolding building_def by blast
    moreover have "q \<noteq> p"
    proof
      assume "q = p"
      with q have pin: "in_bounds s p" by simp
      from grid_set_in_bounds[OF sh pin, of OBSTACLE] g
      have "g = set_cell (grid s) p OBSTACLE" by simp
      with cell_at_set_cell[OF sh pin pin, of OBSTACLE] have "cell_at g p = OBSTACLE"
        by simp
      with q \<open>q = p\<close> show False by simp
    qed
    ultimately show "q \<in> unvisited_cells s - {p}"
      by simp
  qed
  from Cons.prems(1,2) sh1 j have "building s1"
    by (simp add: building_def s1_def)
  moreover from Cons.prems(2) have "dynamic_obstacles s1 = []"
    by (simp add: s1_def)
  ultimately have "building s' \<and> dynamic_obstacles s' = [] \<and> width s' = width s1
      \<and> height s' = height s1 \<and> visited_cells s' = visited_cells s1"
    using rest by (rule Cons.IH)
  then show ?case
    by (simp add: s1_def)
qed

lemma place_static_valid:
  assumes "grid_shape (width s) (height s) (grid s)" and "list_all (in_bounds s) obs"
    and "place_static s obs = Inr s'"
  shows "unvisited_cells s' = unvisited_cells s - set obs
       \<and> (\<forall>q. in_bounds s q \<longrightarrow>
             cell_at (grid s') q = (if q \<in> set obs then OBSTACLE else cell_at (grid s) q))"
  using assms
proof (induction obs arbitrary: s)
  case Nil
  then show ?case by simp
next
  case (Cons p ps)
  from Cons.prems(2) have pin: "in_bounds s p"
    by simp
  define s1 where "s1 = s\<lparr>grid := set_cell (grid s) p OBSTACLE,
                           unvisited_cells := unvisited_cells s - {p}\<rparr>"
  from grid_set_in_bounds[OF Cons.prems(1) pin, of OBSTACLE] Cons.prems(3)
  have rest: "place_static s1 ps = Inr s'"
    by (simp add: s1_def)
  have sh1: "grid_shape (width s1) (height s1) (grid s1)"
    using set_cell_shape[OF Cons.prems(1)] by (simp add: s1_def)
  from Cons.prems(2) have "list_all (in_bounds s1) ps"
    by (simp add: s1_def list_all_iff in_bounds_def)
  from Cons.IH[OF sh1 this rest] have ih: "unvisited_cells s' = unvisited_cells s1 - set ps"
    "\<And>q. in_bounds s1 q \<Longrightarrow>
        cell_at (grid s') q = (if q \<in> set ps then OBSTACLE else cell_at (grid s1) q)"
    by blast+
  have c1: "\<And>q. in_bounds s q \<Longrightarrow>
      cell_at (grid s1) q = (if q = p then OBSTACLE else cell_at (grid s) q)"
    using cell_at_set_cell[OF Cons.prems(1) pin] by (simp add: s1_def)
  have "\<forall>q. in_bounds s q \<longrightarrow>
      cell_at (grid s') q = (if q \<in> set (p # ps) then OBSTACLE else cell_at (grid s) q)"
  proof (intro allI impI)
    fix q assume q: "in_bounds s q"
    then have "in_bounds s1 q"
      by (simp add: s1_def in_bounds_def)
    from ih(2)[OF this] c1[OF q]
    show "cell_at (grid s') q = (if q \<in> set (p # ps) then OBSTACLE else cell_at (grid s) q)"
      by (cases "q = p"; cases "q \<in> set ps"; simp)
  qed
  moreover from ih(1) have "unvisited_cells s' = unvisited_cells s - set (p # ps)"
    by (auto simp: s1_def)
  ultimately show ?case
    by blast
qed

lemma randint_range:
  assumes "randint 0 (n - 1) r = Inr x"
  shows "0 \<le> x \<and> x < n"
  using assms by (auto simp: randint_def split: if_splits)

lemma place_dynamic_building:
  assumes "building s" and "place_dynamic s rs = Inr (s', rs')"
  shows "building s' \<and> same_terrain s s' \<and> visited_cells s' = visited_cells s
       \<and> unvisited_cells s' = unvisited_cells s"
  using assms(2)
proof (induction rs)
  case Nil
  then show ?case by (auto split: sum.splits)
next
  case (Cons r rs)
  from Cons.prems obtain x y where x: "randint 0 (width s - 1) (fst r) = Inr x"
    and y: "randint 0 (height s - 1) (snd r) = Inr y"
    by (auto split: sum.splits)
  from randint_range[OF x] randint_range[OF y] have pin: "in_bounds s (x, y)"
    by (simp add: in_bounds_def)
  from assms(1) have sh: "grid_shape (width s) (height s) (grid s)"
    by (simp add: building_def)
  have rd: "grid_get (grid s) (x, y) = Inr (cell_at (grid s) (x, y))"
    using sh pin by (rule grid_get_in_bounds)
  show ?case
  proof (cases "cell_at (grid s) (x, y) = UNVISITED")
    case False
    with Cons.prems x y rd have "place_dynamic s rs = Inr (s', rs')"
      by simp
    then show ?thesis
      by (rule Cons.IH)
  next
    case True
    define s1 where "s1 = s\<lparr>grid := set_cell (grid s) (x, y) DYNAMIC_OBSTACLE\<rparr>"
    from True have old: "cell_at (grid s) (x, y) \<noteq> OBSTACLE"
      by simp
    from write_cell_building[OF assms(1) pin old, of DYNAMIC_OBSTACLE]
    have b1: "building s1" and t1: "same_terrain s s1"
      by (simp_all add: s1_def)
    have c1: "cell_at (grid s1) (x, y) = DYNAMIC_OBSTACLE"
      using cell_at_set_cell[OF sh pin pin, of DYNAMIC_OBSTACLE] by (simp add: s1_def)
    have s': "s' = s1\<lparr>dynamic_obstacles := dynamic_obstacles s1 @ [(x, y)]\<rparr>"
      using Cons.prems x y rd True grid_set_in_bounds[OF sh pin, of DYNAMIC_OBSTACLE]
      by (simp add: s1_def)
    from b1 pin c1 have "building s'"
      unfolding s' by (simp add: building_def s1_def)
    moreover from t1 have "same_terrain s s'"
      unfolding s' by (simp add: same_terrain_def)
    ultimately show ?thesis
      by (simp add: s' s1_def)
  qed
qed

lemma place_dynamics_building:
  assumes "building s" and "place_dynamics n s rs = Inr s'"
  shows "building s' \<and> same_terrain s s' \<and> visited_cells s' = visited_cells s
       \<and> unvisited_cells s' = unvisited_cells s"
  using assms
proof (induction n arbitrary: s rs)
  case 0
  then show ?case by (simp add: same_terrain_refl)
next
  case (Suc n)
  from Suc.prems(2) obtain s1 rs1 where a: "place_dynamic s rs = Inr (s1, rs1)"
    and b: "place_dynamics n s1 rs1 = Inr s'"
    by (auto split: sum.splits)
  from place_dynamic_building[OF Suc.prems(1) a] have 1: "building s1" "same_terrain s s1"
    "visited_cells s1 = visited_cells s" "unvisited_cells s1 = unvisited_cells s"
    by simp_all
  from Suc.IH[OF 1(1) b] have 2: "building s'" "same_terrain s1 s'"
    "visited_cells s' = visited_cells s1" "unvisited_cells s' = unvisited_cells s1"
    by simp_all
  from 1(2) 2(2) have "same_terrain s s'"
    by (rule same_terrain_trans)
  with 1 2 show ?case
    by simp
qed

lemma mark_robot_inv:
  assumes "building s" and "grid_set (grid s) (0, 0) ROBOT = Inr g"
  shows "in_bounds s (0, 0) \<and> g = set_cell (grid s) (0, 0) ROBOT \<and> session_inv (s\<lparr>grid := g\<rparr>)"
proof -
  from assms(1) have sh: "grid_shape (width s) (height s) (grid s)"
    by (simp add: building_def)
  from assms(2) obtain j where j: "py_index 0 (length (grid s)) = Inr j"
    and i: "py_index 0 (length (grid s ! j)) \<noteq> Inl IndexError"
    by (auto simp: grid_set_def py_index_def split: sum.splits if_splits)
  from j have "0 < length (grid s)" and "j = 0"
    by (simp_all add: py_index_def split: if_splits)
  with sh have h: "0 < height s" and j0: "j < nat (height s)"
    by (simp_all add: grid_shape_def)
  from grid_shape_row[OF sh j0] i have w: "0 < width s"
    by (auto simp: py_index_def split: if_splits)
  from h w have oin: "in_bounds s (0, 0)"
    by (simp add: in_bounds_def)
  from grid_set_in_bounds[OF sh oin, of ROBOT] assms(2)
  have g: "g = set_cell (grid s) (0, 0) ROBOT"
    by simp
  have c: "\<And>q. in_bounds s q \<Longrightarrow>
      cell_at g q = (if q = (0, 0) then ROBOT else cell_at (grid s) q)"
    unfolding g using sh oin by (rule cell_at_set_cell)
  have 1: "grid_shape (width s) (height s) g"
    unfolding g using sh by (rule set_cell_shape)
  have 3: "list_all (\<lambda>d. in_bounds s d \<and> cell_at g d \<noteq> OBSTACLE) (dynamic_obstacles s)"
    using assms(1) by (simp add: building_def list_all_iff c)
  have 4: "\<forall>q. in_bounds s q \<and> cell_at g q = UNVISITED \<longrightarrow> q \<in> unvisited_cells s"
  proof (intro allI impI)
    fix q assume q: "in_bounds s q \<and> cell_at g q = UNVISITED"
    with c[of q] have "q \<noteq> (0, 0) \<and> cell_at (grid s) q = UNVISITED"
      by (cases "q = (0, 0)") simp_all
    with q assms(1) show "q \<in> unvisited_cells s"
      unfolding building_def by blast
  qed
  from assms(1) oin c[OF oin] 1 3 4 have "session_inv (s\<lparr>grid := g\<rparr>)"
    by (simp add: session_inv_def building_def)
  with oin g show ?thesis
    by simp
qed

lemma init_session_inv:
  assumes "init_session n w h obstacles draws = Inr s0"
  shows "session_inv s0"
proof -
  from assms obtain s1 s2 g where 1: "place_static (fresh_session w h) obstacles = Inr s1"
    and 2: "place_dynamics n s1 draws = Inr s2"
    and 3: "grid_set (grid s2) (0, 0) ROBOT = Inr g" and s0: "s0 = s2\<lparr>grid := g\<rparr>"
    by (auto simp: init_session_def split: sum.splits)
  have "dynamic_obstacles (fresh_session w h) = []"
    by (simp add: fresh_session_def)
  from place_static_building[OF fresh_building this 1] have "building s1"
    by simp
  from place_dynamics_building[OF this 2] have "building s2"
    by simp
  from mark_robot_inv[OF this 3] have "session_inv (s2\<lparr>grid := g\<rparr>)"
    by blast
  then show ?thesis
    unfolding s0 .
qed

section \<open>Reachable sessions\<close>

lemma set_all_cells: "set (all_cells s) = {p. in_bounds s p}"
  by (auto simp: all_cells_def in_bounds_def)

lemma distinct_all_cells: "distinct (all_cells s)"
  by (simp add: all_cells_def distinct_product)

lemma set_free_cells: "set (free_cells s) = {p. in_bounds s p \<and> cell_at (grid s) p \<noteq> OBSTACLE}"
  by (auto simp: free_cells_def set_all_cells)

lemma same_terrain_free_cells:
  assumes "same_terrain s s'"
  shows "set (free_cells s') = set (free_cells s)"
  unfolding set_free_cells
  using same_terrain_in_bounds[OF assms] same_terrainD[OF assms] by blast

lemma planner_frontier_path:
  assumes "find_most_efficient_path s = Some p"
  shows "frontier_path s p"
proof -
  have "list_all (queued s) (heappush [] (0, robot_pos s, []))"
    by (simp add: heappush_def queued_def)
  with assms show ?thesis
    unfolding find_most_efficient_path_def
    by (intro frontier_loop_path[where vis = "{robot_pos s}"]) simp_all
qed

lemma reaches_inv:
  assumes "reaches s0 s" and "session_inv s0"
  shows "session_inv s \<and> same_terrain s0 s"
  using assms
proof (induction rule: reaches.induct)
  case (reaches_start s)
  then show ?case by (simp add: same_terrain_refl)
next
  case (reaches_obstacles s0 s rs s')
  then have inv: "session_inv s" and t: "same_terrain s0 s"
    by simp_all
  from move_dynamic_obstacles_inv[OF inv, of rs] reaches_obstacles.hyps(2)
  have "session_inv s'" and "same_terrain s s'"
    by (auto simp: kept_def)
  with t show ?case
    by (blast intro: same_terrain_trans)
next
  case (reaches_robot s0 s p b s')
  then have inv: "session_inv s" and t: "same_terrain s0 s"
    by simp_all
  from move_robot_inv[OF inv planner_frontier_path[OF reaches_robot.hyps(2)]]
    reaches_robot.hyps(3)
  have "session_inv s'" and "same_terrain s s'"
    by auto
  with t show ?case
    by (blast intro: same_terrain_trans)
qed

lemma reaches_partitioned:
  assumes "reaches s0 s" and "session_inv s0" and "partitioned s0"
  shows "partitioned s"
  using assms
proof (induction rule: reaches.induct)
  case (reaches_start s)
  then show ?case by simp
next
  case (reaches_obstacles s0 s rs s')
  then have part: "partitioned s"
    by simp
  from reaches_inv[OF reaches_obstacles.hyps(1) reaches_obstacles.prems(1)]
  have inv: "session_inv s"
    by simp
  from move_dynamic_obstacles_inv[OF inv, of rs] reaches_obstacles.hyps(2)
  have k: "kept s s'"
    by auto
  then have "set (free_cells s') = set (free_cells s)"
    by (intro same_terrain_free_cells) (simp add: kept_def)
  with part k show ?case
    by (simp add: partitioned_def kept_def)
next
  case (reaches_robot s0 s p b s')
  then have part: "partitioned s"
    by simp
  from reaches_inv[OF reaches_robot.hyps(1) reaches_robot.prems(1)]
  have inv: "session_inv s"
    by simp
  have fp: "frontier_path s p"
    using reaches_robot.hyps(2) by (rule planner_frontier_path)
  then have t: "last p \<in> unvisited_cells s"
    by (simp add: frontier_path_def)
  from move_robot_inv[OF inv fp] reaches_robot.hyps(3)
  have st: "same_terrain s s'" and v: "visited_cells s' = insert (last p) (visited_cells s)"
    and u: "unvisited_cells s' = unvisited_cells s - {last p}"
    by auto
  from st have "set (free_cells s') = set (free_cells s)"
    by (rule same_terrain_free_cells)
  with part t show ?case
    unfolding partitioned_def v u by auto
qed

lemma partitioned_card:
  assumes "partitioned s"
  shows "card (visited_cells s) + card (unvisited_cells s) = length (free_cells s)"
proof -
  have d: "distinct (free_cells s)"
    by (simp add: free_cells_def distinct_all_cells)
  from assms have u: "visited_cells s \<union> unvisited_cells s = set (free_cells s)"
    and i: "visited_cells s \<inter> unvisited_cells s = {}"
    by (simp_all add: partitioned_def)
  from u have "finite (visited_cells s \<union> unvisited_cells s)"
    by simp
  then have "finite (visited_cells s)" "finite (unvisited_cells s)"
    by simp_all
  with i have "card (visited_cells s \<union> unvisited_cells s)
      = card (visited_cells s) + card (unvisited_cells s)"
    by (intro card_Un_disjoint)
  with u d show ?thesis
    by (simp add: distinct_card)
qed

lemma init_session_partitioned:
  assumes "init_session n w h obstacles draws = Inr s0"
    and "list_all (\<lambda>p. 0 \<le> fst p \<and> fst p < w \<and> 0 \<le> snd p \<and> snd p < h) obstacles"
  shows "partitioned s0
       \<and> (\<forall>p\<in>set obstacles. p \<noteq> (0, 0) \<longrightarrow> cell_at (grid s0) p = OBSTACLE)"
proof -
  let ?F = "fresh_session w h"
  from assms(1) obtain s1 s2 g where 1: "place_static ?F obstacles = Inr s1"
    and 2: "place_dynamics n s1 draws = Inr s2"
    and 3: "grid_set (grid s2) (0, 0) ROBOT = Inr g" and s0: "s0 = s2\<lparr>grid := g\<rparr>"
    by (auto simp: init_session_def split: sum.splits)
  have shF: "grid_shape (width ?F) (height ?F) (grid ?F)"
    using fresh_shape[of w h] by (simp add: fresh_session_def)
  have obsF: "list_all (in_bounds ?F) obstacles"
    using assms(2) by (simp add: list_all_iff in_bounds_def fresh_session_def)
  have dF: "dynamic_obstacles ?F = []"
    by (simp add: fresh_session_def)
  from place_static_building[OF fresh_building dF 1]
  have b1: "building s1" and sz1: "width s1 = width ?F" "height s1 = height ?F"
    and v1: "visited_cells s1 = {(0, 0)}"
    by (simp_all add: fresh_session_def)
  from place_static_valid[OF shF obsF 1]
  have u1: "unvisited_cells s1 = unvisited_cells ?F - set obstacles"
    and c1: "\<And>q. in_bounds ?F q \<Longrightarrow>
      cell_at (grid s1) q = (if q \<in> set obstacles then OBSTACLE else cell_at (grid ?F) q)"
    by blast+
  from place_dynamics_building[OF b1 2]
  have b2: "building s2" and t12: "same_terrain s1 s2"
    and v2: "visited_cells s2 = {(0, 0)}"
    and u2: "unvisited_cells s2 = unvisited_cells ?F - set obstacles"
    by (simp_all add: v1 u1)
  from mark_robot_inv[OF b2 3]
  have oin: "in_bounds s2 (0, 0)" and g: "g = set_cell (grid s2) (0, 0) ROBOT"
    by blast+
  from b2 have sh2: "grid_shape (width s2) (height s2) (grid s2)"
    by (simp add: building_def)
  have inb1: "\<And>q. in_bounds s1 q = in_bounds ?F q"
    using sz1 by (rule in_bounds_size)
  have inb2: "\<And>q. in_bounds s2 q = in_bounds ?F q"
    using same_terrain_in_bounds[OF t12] inb1 by simp
  have inb0: "\<And>q. in_bounds s0 q = in_bounds ?F q"
    using inb2 by (simp add: s0)
  have c0: "\<And>q. in_bounds ?F q \<Longrightarrow>
      cell_at (grid s0) q = (if q = (0, 0) then ROBOT else cell_at (grid s2) q)"
    using cell_at_set_cell[OF sh2 oin, of _ ROBOT] inb2 by (simp add: s0 g)
  have ob: "\<And>q. in_bounds ?F q \<Longrightarrow>
      (cell_at (grid s2) q = OBSTACLE) = (q \<in> set obstacles)"
  proof -
    fix q assume q: "in_bounds ?F q"
    then have "in_bounds s1 q"
      by (simp add: inb1)
    from same_terrainD[OF t12 this] c1[OF q] fresh_cells[OF q]
    show "(cell_at (grid s2) q = OBSTACLE) = (q \<in> set obstacles)"
      by simp
  qed
  have free: "\<And>q. q \<in> set (free_cells s0)
      \<longleftrightarrow> in_bounds ?F q \<and> (q = (0, 0) \<or> q \<notin> set obstacles)"
  proof -
    fix q
    show "q \<in> set (free_cells s0) \<longleftrightarrow> in_bounds ?F q \<and> (q = (0, 0) \<or> q \<notin> set obstacles)"
    proof (cases "in_bounds ?F q")
      case True
      with c0[OF True] ob[OF True] show ?thesis
        by (cases "q = (0, 0)") (simp_all add: set_free_cells inb0)
    next
      case False
      then show ?thesis
        by (simp add: set_free_cells inb0)
    qed
  qed
  have v0: "visited_cells s0 = {(0, 0)}"
    and u0: "unvisited_cells s0 = ({q. in_bounds ?F q} - {(0, 0)}) - set obstacles"
    using v2 u2 by (simp_all add: s0 fresh_unvisited)
  from oin have oinF: "in_bounds ?F (0, 0)"
    by (simp add: inb2)
  have "visited_cells s0 \<union> unvisited_cells s0 = set (free_cells s0)"
  proof (rule set_eqI)
    fix q
    show "q \<in> visited_cells s0 \<union> unvisited_cells s0 \<longleftrightarrow> q \<in> set (free_cells s0)"
      unfolding free v0 u0 using oinF by auto
  qed
  moreover have "visited_cells s0 \<inter> unvisited_cells s0 = {}"
    unfolding v0 u0 by auto
  ultimately have "partitioned s0"
    by (simp add: partitioned_def)
  moreover have "\<forall>p\<in>set obstacles. p \<noteq> (0, 0) \<longrightarrow> cell_at (grid s0) p = OBSTACLE"
  proof (intro ballI impI)
    fix p assume p: "p \<in> set obstacles" "p \<noteq> (0, 0)"
    with obsF have pin: "in_bounds ?F p"
      by (simp add: list_all_iff)
    from c0[OF pin] ob[OF pin] p show "cell_at (grid s0) p = OBSTACLE"
      by simp
  qed
  ultimately show ?thesis
    by blast
qed

lemma run_reaches: "run ms s = Some s' \<Longrightarrow> reaches s0 s \<Longrightarrow> reaches s0 s'"
proof (induction ms s rule: run.induct)
  case (1 s)
  then show ?case by simp
next
  case (2 k ms s)
  then obtain s1 where s1: "move_dynamic_obstacles (\<lambda>i. k) s = Inr s1" "run ms s1 = Some s'"
    by (auto split: sum.splits)
  from "2.prems"(2) s1(1) have "reaches s0 s1"
    by (rule reaches_obstacles)
  with "2.IH"[OF s1(1) s1(2)] show ?case
    by simp
next
  case (3 ms s)
  then obtain p b s1 where s1: "find_most_efficient_path s = Some p"
    "move_robot s p = Inr (b, s1)" "run ms s1 = Some s'"
    by (auto split: option.splits sum.splits)
  from "3.prems"(2) s1(1,2) have "reaches s0 s1"
    by (rule reaches_robot)
  with "3.IH"[OF s1(1) s1(2) refl s1(3)] show ?case
    by simp
qed

section \<open>The visited and unvisited cells partition the free cells\<close>

text \<open>
  Claim C1. In every session reachable from one that demo.py constructed with all static
  obstacle coordinates in bounds, \<open>visited_cells\<close> and \<open>unvisited_cells\<close> are disjoint,
  and their sizes add up to the number of grid cells that are not OBSTACLE.
\<close>

theorem cells_partitioned:
  assumes "RobotNavigation w h obstacles draws = Inr s0"
    and "list_all (\<lambda>p. 0 \<le> fst p \<and> fst p < w \<and> 0 \<le> snd p \<and> snd p < h) obstacles"
    and "reaches s0 s"
  shows "visited_cells s \<inter> unvisited_cells s = {}
       \<and> card (visited_cells s) + card (unvisited_cells s) = length (free_cells s)"
proof -
  from assms(1) have i: "init_session 3 w h obstacles draws = Inr s0"
    by (simp add: RobotNavigation_def)
  from init_session_partitioned[OF i assms(2)] have "partitioned s0"
    by simp
  with assms(3) init_session_inv[OF i] have p: "partitioned s"
    by (rule reaches_partitioned)
  with partitioned_card[OF p] show ?thesis
    by (simp add: partitioned_def)
qed

theorem cells_partitioned_witness:
  "RobotNavigation 3 2 [(2, 1)] [(1, 0), (1, 1), (2, 0)] = Inr walled_session
   \<and> reaches walled_session walled_moved
   \<and> visited_cells walled_moved \<inter> unvisited_cells walled_moved = {}
   \<and> card (visited_cells walled_moved) + card (unvisited_cells walled_moved)
       = length (free_cells walled_moved)
   \<and> length (free_cells walled_moved) = 5"
proof -
  have a: "RobotNavigation 3 2 [(2, 1)] [(1, 0), (1, 1), (2, 0)] = Inr walled_session"
    by code_simp
  have b: "list_all (\<lambda>p. 0 \<le> fst p \<and> fst p < (3::int) \<and> 0 \<le> snd p \<and> snd p < (2::int)) [(2, 1)]"
    by simp
  have "run [Obstacles 0, Robot] walled_session = Some walled_moved"
    by code_simp
  then have c: "reaches walled_session walled_moved"
    using reaches_start by (rule run_reaches)
  have d: "length (free_cells walled_moved) = 5"
    by code_simp
  from cells_partitioned[OF a b c] a c d show ?thesis
    by simp
qed

section \<open>Exploration is complete when no cell is unvisited\<close>

lemma no_unvisited_shown:
  assumes "session_inv s" and "unvisited_cells s = {}"
  shows "list_all (\<lambda>row. list_all (\<lambda>c. c \<noteq> UNVISITED) row) (grid s)"
  unfolding list_all_length
proof (intro allI impI)
  fix j i assume j: "j < length (grid s)" and i: "i < length (grid s ! j)"
  from assms(1) have sh: "grid_shape (width s) (height s) (grid s)"
    and u: "\<forall>p. in_bounds s p \<and> cell_at (grid s) p = UNVISITED \<longrightarrow> p \<in> unvisited_cells s"
    by (simp_all add: session_inv_def)
  from sh j have jh: "j < nat (height s)"
    by (simp add: grid_shape_def)
  with sh i have iw: "i < nat (width s)"
    by (simp add: grid_shape_row)
  from jh iw have "in_bounds s (int i, int j)"
    by (auto simp: in_bounds_def)
  moreover have "cell_at (grid s) (int i, int j) = grid s ! j ! i"
    by (simp add: cell_at_def)
  ultimately show "grid s ! j ! i \<noteq> UNVISITED"
    using u assms(2) by auto
qed

text \<open>
  Claim C5. In every session reachable from one that demo.py constructed,
  \<open>is_exploration_complete\<close> of demo.py is true exactly when \<open>unvisited_cells\<close> is
  empty; \<open>is_exploration_complete\<close> of h1.py is that test itself.
\<close>

theorem complete_iff_none_unvisited:
  assumes "RobotNavigation w h obstacles draws = Inr s0" and "reaches s0 s"
  shows "(is_exploration_complete s \<longleftrightarrow> unvisited_cells s = {})
       \<and> (h1_is_exploration_complete s \<longleftrightarrow> unvisited_cells s = {})"
proof -
  from assms(1) have "init_session 3 w h obstacles draws = Inr s0"
    by (simp add: RobotNavigation_def)
  then have "session_inv s0"
    by (rule init_session_inv)
  with assms(2) have "session_inv s"
    by (simp add: reaches_inv)
  then show ?thesis
    using no_unvisited_shown[of s]
    by (auto simp: is_exploration_complete_def h1_is_exploration_complete_def)
qed

theorem complete_iff_none_unvisited_witness:
  "RobotNavigation 2 2 [] [(1, 0), (0, 1), (1, 1)] = Inr boxed_session
   \<and> reaches boxed_session explored_2x2
   \<and> is_exploration_complete explored_2x2 \<and> unvisited_cells explored_2x2 = {}
   \<and> reaches boxed_session boxed_stepped
   \<and> \<not> is_exploration_complete boxed_stepped \<and> unvisited_cells boxed_stepped \<noteq> {}"
proof -
  have a: "RobotNavigation 2 2 [] [(1, 0), (0, 1), (1, 1)] = Inr boxed_session"
    by code_simp
  have "run [Obstacles 0, Robot, Robot, Obstacles 0, Robot] boxed_session = Some explored_2x2"
    by code_simp
  then have b: "reaches boxed_session explored_2x2"
    using reaches_start by (rule run_reaches)
  have "run [Obstacles 0] boxed_session = Some boxed_stepped"
    by code_simp
  then have c: "reaches boxed_session boxed_stepped"
    using reaches_start by (rule run_reaches)
  have d: "unvisited_cells explored_2x2 = {}" "unvisited_cells boxed_stepped \<noteq> {}"
    by (simp_all add: explored_2x2_def boxed_stepped_def)
  from complete_iff_none_unvisited[OF a b] complete_iff_none_unvisited[OF a c] a b c d
  show ?thesis
    by simp
qed

section \<open>Dynamic obstacles stay off the static obstacles\<close>

lemma place_static_marks:
  assumes "grid_shape (width s) (height s) (grid s)" and "place_static s obs = Inr s'"
  shows "width s' = width s \<and> height s' = height s
       \<and> (\<forall>q. in_bounds s q \<and> (cell_at (grid s) q = OBSTACLE \<or> q \<in> set obs)
              \<longrightarrow> cell_at (grid s') q = OBSTACLE)"
  using assms
proof (induction obs arbitrary: s)
  case Nil
  then show ?case by simp
next
  case (Cons p ps)
  from Cons.prems(2) obtain g where g: "grid_set (grid s) p OBSTACLE = Inr g"
    by (auto split: sum.splits)
  define s1 where "s1 = s\<lparr>grid := g, unvisited_cells := unvisited_cells s - {p}\<rparr>"
  from Cons.prems(2) g have rest: "place_static s1 ps = Inr s'"
    by (simp add: s1_def)
  have sh1: "grid_shape (width s1) (height s1) (grid s1)"
    using grid_set_shape[OF Cons.prems(1) g] by (simp add: s1_def)
  from Cons.IH[OF sh1 rest] have sz1: "width s' = width s1" "height s' = height s1"
    and ih: "\<And>q. in_bounds s1 q \<Longrightarrow> cell_at (grid s1) q = OBSTACLE \<or> q \<in> set ps
               \<Longrightarrow> cell_at (grid s') q = OBSTACLE"
    by blast+
  from sz1 have sz: "width s' = width s" "height s' = height s"
    by (simp_all add: s1_def)
  have "cell_at (grid s') q = OBSTACLE"
    if q: "in_bounds s q" and c: "cell_at (grid s) q = OBSTACLE \<or> q \<in> set (p # ps)" for q
  proof -
    from q have q1: "in_bounds s1 q"
      by (simp add: s1_def)
    have "cell_at g q = OBSTACLE \<or> q \<in> set ps"
    proof (cases "q = p")
      case True
      with q have pin: "in_bounds s p"
        by simp
      from grid_set_in_bounds[OF Cons.prems(1) pin, of OBSTACLE] g
      have "g = set_cell (grid s) p OBSTACLE"
        by simp
      with cell_at_set_cell[OF Cons.prems(1) pin pin, of OBSTACLE] True show ?thesis
        by simp
    next
      case False
      with c grid_set_cell_cases[OF g, of q] show ?thesis
        by auto
    qed
    then have "cell_at (grid s1) q = OBSTACLE \<or> q \<in> set ps"
      by (simp add: s1_def)
    with q1 show ?thesis
      by (rule ih)
  qed
  with sz show ?case
    by blast
qed

lemma init_session_marks:
  assumes "init_session n w h obstacles draws = Inr s0"
    and "p \<in> set obstacles" and "in_bounds s0 p" and "p \<noteq> (0, 0)"
  shows "cell_at (grid s0) p = OBSTACLE"
proof -
  let ?F = "fresh_session w h"
  from assms(1) obtain s1 s2 g where 1: "place_static ?F obstacles = Inr s1"
    and 2: "place_dynamics n s1 draws = Inr s2"
    and 3: "grid_set (grid s2) (0, 0) ROBOT = Inr g" and s0: "s0 = s2\<lparr>grid := g\<rparr>"
    by (auto simp: init_session_def split: sum.splits)
  have shF: "grid_shape (width ?F) (height ?F) (grid ?F)"
    using fresh_shape[of w h] by (simp add: fresh_session_def)
  have dF: "dynamic_obstacles ?F = []"
    by (simp add: fresh_session_def)
  from place_static_building[OF fresh_building dF 1] have b1: "building s1"
    by simp
  from place_static_marks[OF shF 1] have sz1: "width s1 = width ?F" "height s1 = height ?F"
    and m1: "\<And>q. in_bounds ?F q \<Longrightarrow> q \<in> set obstacles \<Longrightarrow> cell_at (grid s1) q = OBSTACLE"
    by blast+
  from place_dynamics_building[OF b1 2] have b2: "building s2" and t12: "same_terrain s1 s2"
    by simp_all
  from mark_robot_inv[OF b2 3] have oin: "in_bounds s2 (0, 0)"
    and g: "g = set_cell (grid s2) (0, 0) ROBOT"
    by blast+
  from b2 have sh2: "grid_shape (width s2) (height s2) (grid s2)"
    by (simp add: building_def)
  from assms(3) have p2: "in_bounds s2 p"
    by (simp add: s0)
  then have p1: "in_bounds s1 p"
    by (simp add: same_terrain_in_bounds[OF t12])
  then have "in_bounds ?F p"
    by (simp add: in_bounds_size[OF sz1])
  from m1[OF this assms(2)] same_terrainD[OF t12 p1] have "cell_at (grid s2) p = OBSTACLE"
    by simp
  with cell_at_set_cell[OF sh2 oin p2, of ROBOT] assms(4) show ?thesis
    by (simp add: s0 g)
qed


text \<open>
  Claim C7 as stated fails. Line 47 writes ROBOT over the OBSTACLE that line 32 wrote
  when (0,0) is in the static obstacle list; once the robot has left, the cell shows
  VISITED, and a dynamic obstacle steps onto it: a coordinate of the list.
\<close>

theorem obstacle_on_listed_start:
  "RobotNavigation 2 2 [(0, 0)] [(1, 0), (0, 1), (1, 1)] = Inr boxed_session
   \<and> reaches boxed_session start_taken
   \<and> dynamic_obstacles start_taken ! 0 \<in> set [(0, 0)]"
proof -
  have a: "RobotNavigation 2 2 [(0, 0)] [(1, 0), (0, 1), (1, 1)] = Inr boxed_session"
    by code_simp
  have "run [Obstacles 0, Robot, Obstacles 3] boxed_session = Some start_taken"
    by code_simp
  then have b: "reaches boxed_session start_taken"
    using reaches_start by (rule run_reaches)
  have c: "dynamic_obstacles start_taken ! 0 = (0, 0)"
    by (simp add: start_taken_def)
  from a b c show ?thesis
    by simp
qed

text \<open>
  Claim C7, amended. In every session reachable from one that demo.py constructed
  from a static obstacle list without the robot's start (0,0), so at the initial
  placement and after every step, no dynamic obstacle stands on a coordinate of the
  static obstacle list, nor on a cell that the constructed grid shows as OBSTACLE.
\<close>

theorem obstacles_off_static_cells:
  assumes "RobotNavigation w h obstacles draws = Inr s0"
    and "(0, 0) \<notin> set obstacles"
    and "reaches s0 s"
  shows "list_all (\<lambda>d. d \<notin> set obstacles \<and> grid_get (grid s0) d \<noteq> Inr OBSTACLE)
           (dynamic_obstacles s)"
proof -
  from assms(1) have i: "init_session 3 w h obstacles draws = Inr s0"
    by (simp add: RobotNavigation_def)
  have inv0: "session_inv s0"
    using i by (rule init_session_inv)
  from reaches_inv[OF assms(3) inv0]
  have inv: "session_inv s" and st: "same_terrain s0 s"
    by simp_all
  from inv0 have sh0: "grid_shape (width s0) (height s0) (grid s0)"
    by (simp add: session_inv_def)
  from inv have dy: "list_all (\<lambda>d. in_bounds s d \<and> cell_at (grid s) d \<noteq> OBSTACLE)
      (dynamic_obstacles s)"
    by (simp add: session_inv_def)
  show ?thesis
    unfolding list_all_iff
  proof (intro ballI conjI)
    fix d assume "d \<in> set (dynamic_obstacles s)"
    with dy have din: "in_bounds s d" and dc: "cell_at (grid s) d \<noteq> OBSTACLE"
      by (simp_all add: list_all_iff)
    from din have din0: "in_bounds s0 d"
      by (simp add: same_terrain_in_bounds[OF st])
    from same_terrainD[OF st din0] dc have c0: "cell_at (grid s0) d \<noteq> OBSTACLE"
      by simp
    show "d \<notin> set obstacles"
    proof
      assume l: "d \<in> set obstacles"
      with assms(2) have "d \<noteq> (0, 0)"
        by auto
      from init_session_marks[OF i l din0 this] c0 show False
        by simp
    qed
    from grid_get_in_bounds[OF sh0 din0] c0 show "grid_get (grid s0) d \<noteq> Inr OBSTACLE"
      by simp
  qed
qed

theorem obstacles_off_static_cells_witness:
  "RobotNavigation 3 2 [(2, 1), (-1, 1)] [(1, 0), (1, 1), (2, 0)] = Inr walled_session
   \<and> reaches walled_session walled_shuffled
   \<and> dynamic_obstacles walled_shuffled = [(2, 0), (0, 0), (1, 0)]
   \<and> list_all (\<lambda>d. d \<notin> set [(2, 1), (-1, 1)]
                   \<and> grid_get (grid walled_session) d \<noteq> Inr OBSTACLE)
        (dynamic_obstacles walled_shuffled)"
proof -
  have a: "RobotNavigation 3 2 [(2, 1), (-1, 1)] [(1, 0), (1, 1), (2, 0)] = Inr walled_session"
    by code_simp
  have c: "(0, 0) \<notin> set [(2, 1), (-1, 1) :: pos]"
    by simp
  have "run [Obstacles 5, Robot, Obstacles 7] walled_session = Some walled_shuffled"
    by code_simp
  then have d: "reaches walled_session walled_shuffled"
    using reaches_start by (rule run_reaches)
  have e: "dynamic_obstacles walled_shuffled = [(2, 0), (0, 0), (1, 0)]"
    by (simp add: walled_shuffled_def)
  from obstacles_off_static_cells[OF a c d] a d e show ?thesis
    by simp
qed


end
